theory Spec2Isabelle
  imports Complex_Main "HOL-Library.Log_Nat"
begin

section \<open>The snake game of script.js\<close>

text \<open>
  The theory embeds the class \<open>SnakeGame\<close> of \<open>script.js\<close> and the helpers it calls.
  A game object is a record, every method is a function from the state before the call to
  the state after it, and a thrown \<open>TypeError\<close> is a value of a sum type. The canvas, the
  HUD, the overlay and the two timing fields (\<open>lastTickAt\<close>, \<open>accumulator\<close>) belong to the
  renderer and the loop driver and are left out: no method of the state machine reads them.
\<close>

subsection \<open>Configuration\<close>

definition GRID_COLUMNS :: int where "GRID_COLUMNS = 21"
definition GRID_ROWS :: int where "GRID_ROWS = 21"
definition INITIAL_SNAKE_LENGTH :: nat where "INITIAL_SNAKE_LENGTH = 4"
definition BASE_SPEED_MS :: int where "BASE_SPEED_MS = 120"
definition SPEEDUP_EVERY_POINTS :: int where "SPEEDUP_EVERY_POINTS = 5"

subsection \<open>Positions and directions\<close>

datatype position = Pos (pos_x: int) (pos_y: int)

definition posEquals :: "position \<Rightarrow> position \<Rightarrow> bool" where
  "posEquals a b = (pos_x a = pos_x b \<and> pos_y a = pos_y b)"

datatype direction = Up | Down | Left | Right

fun dir_x :: "direction \<Rightarrow> int" where
  "dir_x Up = 0"
| "dir_x Down = 0"
| "dir_x Left = - 1"
| "dir_x Right = 1"

fun dir_y :: "direction \<Rightarrow> int" where
  "dir_y Up = - 1"
| "dir_y Down = 1"
| "dir_y Left = 0"
| "dir_y Right = 0"

definition isOpposite :: "direction \<Rightarrow> direction \<Rightarrow> bool" where
  "isOpposite a b = (dir_x a + dir_x b = 0 \<and> dir_y a + dir_y b = 0)"

subsection \<open>Numbers and strings of the platform\<close>

text \<open>
  \<open>String(n)\<close> of an integer-valued number is its decimal numeral, with a minus sign
  when it is negative. The template literal of \<open>spawnFood\<close> and the value written to the
  storage both go through it.
\<close>

definition digit :: "nat \<Rightarrow> char" where
  "digit d = ''0123456789'' ! d"

fun DecimalDigits :: "nat \<Rightarrow> string" where
  "DecimalDigits n =
     (if n < 10 then [digit n] else DecimalDigits (n div 10) @ [digit (n mod 10)])"

declare DecimalDigits.simps [simp del]

definition ToString :: "int \<Rightarrow> string" where
  "ToString i = (if i < 0 then CHR ''-'' # DecimalDigits (nat (- i)) else DecimalDigits (nat i))"

text \<open>
  The product \<open>Math.random() * n\<close> is a product of doubles: the exact product rounded
  to the nearest double, ties to the even mantissa. \<open>binade x\<close> is the exponent \<open>k\<close>
  with \<open>2^k \<le> x < 2^(k+1)\<close>; the doubles around \<open>x\<close> are the multiples of
  \<open>2^(k-52)\<close>, or of \<open>2^-1074\<close> in the subnormal range. Only products that are not
  negative and far below \<open>2^1024\<close> occur, so neither a sign nor an overflow is modelled.
\<close>

definition binade :: "rat \<Rightarrow> int" where
  "binade x =
     (let (p, q) = quotient_of x; d = bitlen p - bitlen q
      in if 2 powi d \<le> x then d else d - 1)"

definition roundHalfEven :: "rat \<Rightarrow> int" where
  "roundHalfEven y =
     (let f = \<lfloor>y\<rfloor>; r = y - of_int f
      in if r < 1 / 2 then f else if 1 / 2 < r then f + 1 else if even f then f else f + 1)"

definition roundToDouble :: "rat \<Rightarrow> rat" where
  "roundToDouble x =
     (if x \<le> 0 then 0
      else let e = max (binade x - 52) (- 1074)
           in of_int (roundHalfEven (x / 2 powi e)) * 2 powi e)"

text \<open>
  A value of \<open>Math.random()\<close>: a double \<open>u\<close> with \<open>0 \<le> u < 1\<close>, that is a number
  \<open>m / 2^e\<close> below 1 with a mantissa \<open>m\<close> of at most 53 bits and \<open>e \<le> 1074\<close>. The
  type holds exactly these. \<open>draw_of m e\<close> is the draw \<open>m / 2^e\<close>.
\<close>

typedef draw =
  "{u :: rat. 0 \<le> u \<and> u < 1 \<and> (\<exists>m e. u = of_nat m / 2 ^ e \<and> m < 2 ^ 53 \<and> e \<le> 1074)}"
  by (rule exI [of _ 0]) auto

setup_lifting type_definition_draw

lift_definition draw_zero :: draw is "0"
  by auto

lift_definition draw_of :: "nat \<Rightarrow> nat \<Rightarrow> draw" is
  "\<lambda>m e. if m < 2 ^ e \<and> m < 2 ^ 53 \<and> e \<le> 1074 then of_nat m / 2 ^ e else 0"
  by auto

text \<open>\<open>Math.floor(Math.random() * n)\<close>, for an array length \<open>n\<close>.\<close>

definition randomInt :: "draw \<Rightarrow> nat \<Rightarrow> nat" where
  "randomInt u n = nat \<lfloor>roundToDouble (Rep_draw u * of_nat n)\<rfloor>"

subsection \<open>The persisted best score\<close>

text \<open>
  A JavaScript number, as far as the best score needs it: a finite value, \<open>NaN\<close> or an
  infinity. \<open>StringToNumber\<close> is the conversion \<open>Number\<close> applies to a string:
  white space is trimmed, the empty string is 0, a decimal literal (optional sign, digits,
  fraction, exponent), \<open>Infinity\<close> and the \<open>0x\<close>, \<open>0o\<close>, \<open>0b\<close> integer literals
  have their value, and everything else is \<open>NaN\<close>. The value is the literal's
  mathematical value: the rounding of a long literal to the nearest double is not
  modelled (a score is far below \<open>2^53\<close>). Characters are code units below 256.
\<close>

datatype jsnum = Finite rat | NaN | PosInfinity | NegInfinity

definition isStrWhiteSpaceChar :: "char \<Rightarrow> bool" where
  "isStrWhiteSpaceChar c =
     (c \<in> set [CHR 0x09, CHR 0x0A, CHR 0x0B, CHR 0x0C, CHR 0x0D, CHR 0x20, CHR 0xA0])"

definition trim :: "string \<Rightarrow> string" where
  "trim s = rev (dropWhile isStrWhiteSpaceChar (rev (dropWhile isStrWhiteSpaceChar s)))"

definition digit_value :: "char \<Rightarrow> nat" where
  "digit_value c =
     (if c \<in> set ''0123456789'' then of_char c - 48
      else if c \<in> set ''abcdef'' then of_char c - 87
      else of_char c - 55)"

definition isDecimalDigit :: "char \<Rightarrow> bool" where
  "isDecimalDigit c = (c \<in> set ''0123456789'')"

definition isRadixDigit :: "nat \<Rightarrow> char \<Rightarrow> bool" where
  "isRadixDigit r c =
     (c \<in> set ''0123456789abcdefABCDEF'' \<and> digit_value c < r)"

definition digits_value :: "nat \<Rightarrow> string \<Rightarrow> nat" where
  "digits_value r ds = foldl (\<lambda>a c. r * a + digit_value c) 0 ds"

definition NonDecimalIntegerLiteral :: "nat \<Rightarrow> string \<Rightarrow> jsnum" where
  "NonDecimalIntegerLiteral r ds =
     (if ds \<noteq> [] \<and> list_all (isRadixDigit r) ds then Finite (of_nat (digits_value r ds))
      else NaN)"

definition ExponentPart :: "string \<Rightarrow> int option" where
  "ExponentPart t =
     (case t of
        [] \<Rightarrow> Some 0
      | e # r \<Rightarrow>
          if e = CHR ''e'' \<or> e = CHR ''E'' then
            (let neg = (r \<noteq> [] \<and> hd r = CHR ''-'');
                 ds = (if r \<noteq> [] \<and> (hd r = CHR ''-'' \<or> hd r = CHR ''+'') then tl r else r)
             in if ds \<noteq> [] \<and> list_all isDecimalDigit ds
                then Some (if neg then - int (digits_value 10 ds) else int (digits_value 10 ds))
                else None)
          else None)"

definition StrUnsignedDecimalLiteral :: "string \<Rightarrow> jsnum" where
  "StrUnsignedDecimalLiteral t =
     (if t = ''Infinity'' then PosInfinity
      else
        let ip = takeWhile isDecimalDigit t;
            r1 = dropWhile isDecimalDigit t;
            dot = (r1 \<noteq> [] \<and> hd r1 = CHR ''.'');
            fp = (if dot then takeWhile isDecimalDigit (tl r1) else []);
            r2 = (if dot then dropWhile isDecimalDigit (tl r1) else r1)
        in if ip = [] \<and> fp = [] then NaN
           else
             (case ExponentPart r2 of
                None \<Rightarrow> NaN
              | Some e \<Rightarrow>
                  Finite ((of_nat (digits_value 10 ip)
                           + of_nat (digits_value 10 fp) / 10 ^ length fp)
                          * (if e < 0 then 1 / 10 ^ nat (- e) else 10 ^ nat e))))"

definition negate :: "jsnum \<Rightarrow> jsnum" where
  "negate v = (case v of Finite q \<Rightarrow> Finite (- q) | NaN \<Rightarrow> NaN
               | PosInfinity \<Rightarrow> NegInfinity | NegInfinity \<Rightarrow> PosInfinity)"

definition StrNumericLiteral :: "string \<Rightarrow> jsnum" where
  "StrNumericLiteral t =
     (case t of
        c # d # ds \<Rightarrow>
          if c = CHR ''0'' \<and> (d = CHR ''x'' \<or> d = CHR ''X'') then NonDecimalIntegerLiteral 16 ds
          else if c = CHR ''0'' \<and> (d = CHR ''o'' \<or> d = CHR ''O'') then NonDecimalIntegerLiteral 8 ds
          else if c = CHR ''0'' \<and> (d = CHR ''b'' \<or> d = CHR ''B'') then NonDecimalIntegerLiteral 2 ds
          else if c = CHR ''+'' then StrUnsignedDecimalLiteral (d # ds)
          else if c = CHR ''-'' then negate (StrUnsignedDecimalLiteral (d # ds))
          else StrUnsignedDecimalLiteral t
      | _ \<Rightarrow> StrUnsignedDecimalLiteral t)"

definition StringToNumber :: "string \<Rightarrow> jsnum" where
  "StringToNumber s = (let t = trim s in if t = [] then Finite 0 else StrNumericLiteral t)"

text \<open>The comparison \<open>this.score > this.bestScore\<close>; it is false against \<open>NaN\<close>.\<close>

fun js_gt :: "int \<Rightarrow> jsnum \<Rightarrow> bool" where
  "js_gt a (Finite b) = (b < of_int a)"
| "js_gt a NaN = False"
| "js_gt a PosInfinity = False"
| "js_gt a NegInfinity = True"

type_synonym storage = "string \<rightharpoonup> string"

definition HIGH_SCORE_KEY :: string where
  "HIGH_SCORE_KEY = ''snake-high-score''"

text \<open>
  \<open>Number(localStorage.getItem("snake-high-score") || 0)\<close>: \<open>getItem\<close> is \<open>null\<close> for
  an absent key, and \<open>null\<close> and the empty string are the falsy values a read can give.
\<close>

definition read_bestScore :: "storage \<Rightarrow> jsnum" where
  "read_bestScore st =
     (case st HIGH_SCORE_KEY of
        None \<Rightarrow> Finite 0
      | Some v \<Rightarrow> if v = [] then Finite 0 else StringToNumber v)"

subsection \<open>The game state\<close>

datatype js_error = TypeError

record game =
  bestScore :: jsnum
  score :: int
  isPaused :: bool
  isGameOver :: bool
  speedIntervalMs :: int
  speedMultiplier :: int
  pendingDirection :: direction
  currentDirection :: direction
  snake :: "position list"
  food :: position
  localStorage :: storage

subsection \<open>spawnFood\<close>

definition spaces :: "position list" where
  "spaces = concat (map (\<lambda>y. map (\<lambda>x. Pos x y) [0..GRID_COLUMNS - 1]) [0..GRID_ROWS - 1])"

definition cell_key :: "position \<Rightarrow> string" where
  "cell_key p = ToString (pos_x p) @ '','' @ ToString (pos_y p)"

definition empty_cells :: "position list \<Rightarrow> position list" where
  "empty_cells sn =
     (let snakeSet = set (map cell_key sn)
      in filter (\<lambda>p. cell_key p \<notin> snakeSet) spaces)"

definition spawnFood :: "draw \<Rightarrow> position list \<Rightarrow> position" where
  "spawnFood u sn =
     (let empty = empty_cells sn
      in if length empty \<noteq> 0 then empty ! randomInt u (length empty) else Pos 0 0)"

subsection \<open>reset, setDirection, togglePause, gameOver, tick\<close>

text \<open>
  The loop of \<open>reset\<close>: \<open>i\<close> runs from \<open>INITIAL_SNAKE_LENGTH - 1\<close> down to 0 and
  each round pushes \<open>(startX - i, startY)\<close> at the end of the array. The third argument
  counts the rounds left, so the round's \<open>i\<close> is one less.
\<close>

fun reset_loop :: "int \<Rightarrow> int \<Rightarrow> nat \<Rightarrow> position list \<Rightarrow> position list" where
  "reset_loop startX startY 0 acc = acc"
| "reset_loop startX startY (Suc i) acc =
     reset_loop startX startY i (acc @ [Pos (startX - int i) startY])"

definition reset :: "draw \<Rightarrow> game \<Rightarrow> game" where
  "reset u s =
     (let startX = GRID_COLUMNS div 3;
          startY = GRID_ROWS div 2;
          sn = reset_loop startX startY INITIAL_SNAKE_LENGTH []
      in s\<lparr>score := 0, isPaused := False, isGameOver := False,
            speedIntervalMs := BASE_SPEED_MS, speedMultiplier := 1,
            pendingDirection := Right, currentDirection := Right,
            snake := sn, food := spawnFood u sn\<rparr>)"

text \<open>
  The constructor reads the best score and calls \<open>reset\<close>, which assigns every other
  field; the values they are given here before \<open>reset\<close> are never read.
\<close>

definition constructor :: "storage \<Rightarrow> draw \<Rightarrow> game" where
  "constructor st u =
     reset u \<lparr>bestScore = read_bestScore st, score = 0, isPaused = False,
              isGameOver = False, speedIntervalMs = 0, speedMultiplier = 0,
              pendingDirection = Right, currentDirection = Right,
              snake = [], food = Pos 0 0, localStorage = st\<rparr>"

definition setDirection :: "direction option \<Rightarrow> game \<Rightarrow> game" where
  "setDirection dir s =
     (case dir of
        None \<Rightarrow> s
      | Some d \<Rightarrow>
          if isOpposite d (currentDirection s) then s
          else s\<lparr>pendingDirection := d\<rparr>)"

definition togglePause :: "game \<Rightarrow> game" where
  "togglePause s = (if isGameOver s then s else s\<lparr>isPaused := \<not> isPaused s\<rparr>)"

definition gameOver :: "game \<Rightarrow> game" where
  "gameOver s =
     (let s1 = s\<lparr>isGameOver := True\<rparr>
      in if js_gt (score s1) (bestScore s1)
         then s1\<lparr>bestScore := Finite (of_int (score s1)),
                 localStorage := (localStorage s1)(HIGH_SCORE_KEY \<mapsto> ToString (score s1))\<rparr>
         else s1)"

text \<open>The self-collision loop of \<open>tick\<close>: the segments in order, stopping at the first hit.\<close>

primrec hits_segment :: "position \<Rightarrow> position list \<Rightarrow> bool" where
  "hits_segment h [] = False"
| "hits_segment h (p # ps) = (if posEquals p h then True else hits_segment h ps)"

definition nextHead :: "game \<Rightarrow> position \<Rightarrow> position" where
  "nextHead s h =
     Pos (pos_x h + dir_x (currentDirection s)) (pos_y h + dir_y (currentDirection s))"

definition outside_grid :: "position \<Rightarrow> bool" where
  "outside_grid p =
     (pos_x p < 0 \<or> pos_x p \<ge> GRID_COLUMNS \<or> pos_y p < 0 \<or> pos_y p \<ge> GRID_ROWS)"

text \<open>
  The interval is an integer from 120 down, and \<open>v * 0.92\<close> of such a \<open>v\<close> is never
  within a rounding error of an integer it does not reach, so \<open>Math.floor(v * 0.92)\<close> is
  the integer division below. \<open>snake[0].x\<close> of an empty array throws a \<open>TypeError\<close>.
\<close>

definition tick :: "draw \<Rightarrow> game \<Rightarrow> js_error + game" where
  "tick u s =
     (if isPaused s \<or> isGameOver s then Inr s
      else
        let s1 = s\<lparr>currentDirection := pendingDirection s\<rparr> in
        case snake s1 of
          [] \<Rightarrow> Inl TypeError
        | h # _ \<Rightarrow>
            let nh = nextHead s1 h in
            if outside_grid nh then Inr (gameOver s1)
            else if hits_segment nh (snake s1) then Inr (gameOver s1)
            else
              let s2 = s1\<lparr>snake := nh # snake s1\<rparr> in
              if posEquals nh (food s2) then
                let s3 = s2\<lparr>score := score s2 + 1\<rparr>;
                    s4 = (if score s3 mod SPEEDUP_EVERY_POINTS = 0
                          then s3\<lparr>speedIntervalMs :=
                                    max 45 (speedIntervalMs s3 * 92 div 100)\<rparr>
                          else s3)
                in Inr (s4\<lparr>food := spawnFood u (snake s4)\<rparr>)
              else Inr (s2\<lparr>snake := butlast (snake s2)\<rparr>))"

subsection \<open>Runs of the game\<close>

datatype op = Reset draw | SetDirection "direction option" | TogglePause | Tick draw

fun exec :: "op \<Rightarrow> game \<Rightarrow> js_error + game" where
  "exec (Reset u) s = Inr (reset u s)"
| "exec (SetDirection d) s = Inr (setDirection d s)"
| "exec TogglePause s = Inr (togglePause s)"
| "exec (Tick u) s = tick u s"

fun run :: "op list \<Rightarrow> game \<Rightarrow> js_error + game" where
  "run [] s = Inr s"
| "run (c # cs) s = (case exec c s of Inl e \<Rightarrow> Inl e | Inr s' \<Rightarrow> run cs s')"

inductive reachable :: "game \<Rightarrow> bool" where
  start: "reachable (constructor st u)"
| step: "reachable s \<Longrightarrow> exec c s = Inr s' \<Longrightarrow> reachable s'"

subsection \<open>Notions the properties are stated with\<close>

text \<open>The exponent of the spacing of the doubles around a positive \<open>x\<close>.\<close>

definition ulp_exponent :: "rat \<Rightarrow> int" where
  "ulp_exponent x = max (binade x - 52) (- 1074)"

text \<open>
  The cell \<open>tick\<close> computes as the next head: the head moved by the direction that the
  tick has just committed, which is the pending one.
\<close>

definition head_after_commit :: "game \<Rightarrow> position \<Rightarrow> position" where
  "head_after_commit s h = nextHead (s\<lparr>currentDirection := pendingDirection s\<rparr>) h"

text \<open>The two collisions of \<open>tick\<close>: the wall, and a segment of the snake as it is.\<close>

definition fatal :: "game \<Rightarrow> position \<Rightarrow> bool" where
  "fatal s h = (outside_grid (head_after_commit s h) \<or> head_after_commit s h \<in> set (snake s))"

text \<open>What holds of every state a run of the game can reach.\<close>

definition sound :: "game \<Rightarrow> bool" where
  "sound s =
     (4 \<le> length (snake s) \<and> distinct (snake s)
      \<and> \<not> isOpposite (pendingDirection s) (currentDirection s)
      \<and> 45 \<le> speedIntervalMs s \<and> speedIntervalMs s \<le> 120
      \<and> 0 \<le> score s)"

text \<open>
  A tick that moves the snake: the game is running and the next head hits neither a wall
  nor a segment, so \<open>tick\<close> reaches \<open>unshift\<close>.
\<close>

definition moved :: "game \<Rightarrow> bool" where
  "moved s =
     (\<not> isPaused s \<and> \<not> isGameOver s
      \<and> (case snake s of [] \<Rightarrow> False | h # _ \<Rightarrow> \<not> fatal s h))"

text \<open>
  The directions that the ticks of a run commit, one after the other. A tick of a running
  game commits its pending direction; \<open>never_reverses fresh prev cs s\<close> says that along
  the calls \<open>cs\<close> from the state \<open>s\<close> no tick commits the opposite of the direction
  that the tick before it committed (\<open>prev\<close>, when there was one). With \<open>fresh\<close> a
  \<open>reset\<close> starts a new game and the direction committed before it is forgotten;
  without, it is kept across the \<open>reset\<close>.
\<close>

fun never_reverses :: "bool \<Rightarrow> direction option \<Rightarrow> op list \<Rightarrow> game \<Rightarrow> bool" where
  "never_reverses fresh prev [] s = True"
| "never_reverses fresh prev (Reset u # cs) s =
     never_reverses fresh (if fresh then None else prev) cs (reset u s)"
| "never_reverses fresh prev (SetDirection d # cs) s =
     never_reverses fresh prev cs (setDirection d s)"
| "never_reverses fresh prev (TogglePause # cs) s =
     never_reverses fresh prev cs (togglePause s)"
| "never_reverses fresh prev (Tick u # cs) s =
     (if isPaused s \<or> isGameOver s then never_reverses fresh prev cs s
      else
        case tick u s of
          Inl e \<Rightarrow> True
        | Inr s' \<Rightarrow>
            (case prev of None \<Rightarrow> True | Some d \<Rightarrow> \<not> isOpposite (currentDirection s') d)
            \<and> never_reverses fresh (Some (currentDirection s')) cs s')"

text \<open>
  The game as the page starts it, with nothing stored and the draw 453/1024, which puts the
  first food at (4, 9).
\<close>

abbreviation start_game :: game where
  "start_game \<equiv> constructor Map.empty (draw_of 453 10)"

text \<open>A running game with nothing stored, as the examples below play it.\<close>

abbreviation playing ::
  "int \<Rightarrow> int \<Rightarrow> direction \<Rightarrow> direction \<Rightarrow> position list \<Rightarrow> position \<Rightarrow> game" where
  "playing sc sp pd cd sn fd \<equiv>
     \<lparr>bestScore = Finite 0, score = sc, isPaused = False, isGameOver = False,
      speedIntervalMs = sp, speedMultiplier = 1, pendingDirection = pd, currentDirection = cd,
      snake = sn, food = fd, localStorage = Map.empty\<rparr>"

text \<open>The comparison \<open>a < b\<close> of two numbers; it is false when either is \<open>NaN\<close>.\<close>

fun js_lt :: "jsnum \<Rightarrow> jsnum \<Rightarrow> bool" where
  "js_lt (Finite a) (Finite b) = (a < b)"
| "js_lt (Finite a) PosInfinity = True"
| "js_lt NegInfinity (Finite b) = True"
| "js_lt NegInfinity PosInfinity = True"
| "js_lt a b = False"

section \<open>Properties\<close>

subsection \<open>The keys of the occupied cells\<close>

text \<open>
  \<open>spawnFood\<close> compares cells by the strings \<open>x,y\<close>. Two cells have the same string
  only when they are the same cell, so the set of strings stands for the set of cells.
\<close>

lemma digit_inj: "a < 10 \<Longrightarrow> b < 10 \<Longrightarrow> digit a = digit b \<Longrightarrow> a = b"
  unfolding digit_def using nth_eq_iff_index_eq [of "''0123456789''" a b] by simp

lemma digit_mem: "a < 10 \<Longrightarrow> digit a \<in> set ''0123456789''"
  unfolding digit_def using nth_mem [of a "''0123456789''"] by simp

lemma DecimalDigits_chars: "set (DecimalDigits n) \<subseteq> set ''0123456789''"
proof (induction n rule: DecimalDigits.induct)
  case (1 n)
  show ?case
  proof (cases "n < 10")
    case True
    then show ?thesis using digit_mem [of n] by (simp add: DecimalDigits.simps [of n])
  next
    case False
    have "n mod 10 < 10" by simp
    then have "digit (n mod 10) \<in> set ''0123456789''" by (rule digit_mem)
    with False 1 show ?thesis by (simp add: DecimalDigits.simps [of n])
  qed
qed

lemma DecimalDigits_nonempty: "DecimalDigits n \<noteq> []"
  by (simp add: DecimalDigits.simps [of n])

lemma DecimalDigits_inj: "DecimalDigits n = DecimalDigits m \<Longrightarrow> n = m"
proof (induction n arbitrary: m rule: DecimalDigits.induct)
  case (1 n)
  show ?case
  proof (cases "n < 10")
    case n: True
    show ?thesis
    proof (cases "m < 10")
      case True
      with n "1.prems" show ?thesis
        by (simp add: DecimalDigits.simps [of n] DecimalDigits.simps [of m] digit_inj)
    next
      case False
      with n "1.prems" DecimalDigits_nonempty [of "m div 10"] show ?thesis
        by (simp add: DecimalDigits.simps [of n] DecimalDigits.simps [of m])
    qed
  next
    case n: False
    show ?thesis
    proof (cases "m < 10")
      case True
      with n "1.prems" DecimalDigits_nonempty [of "n div 10"] show ?thesis
        by (simp add: DecimalDigits.simps [of n] DecimalDigits.simps [of m])
    next
      case False
      with n "1.prems" have eq: "DecimalDigits (n div 10) = DecimalDigits (m div 10)"
        and d: "digit (n mod 10) = digit (m mod 10)"
        by (simp_all add: DecimalDigits.simps [of n] DecimalDigits.simps [of m])
      from "1.IH" [OF n eq] have "n div 10 = m div 10" .
      moreover from d have "n mod 10 = m mod 10" by (intro digit_inj) simp_all
      ultimately show ?thesis by (metis div_mult_mod_eq)
    qed
  qed
qed

lemma DecimalDigits_no_minus: "CHR ''-'' \<notin> set (DecimalDigits n)"
  using DecimalDigits_chars [of n] by auto

lemma DecimalDigits_no_comma: "CHR '','' \<notin> set (DecimalDigits n)"
  using DecimalDigits_chars [of n] by auto

lemma ToString_no_comma: "CHR '','' \<notin> set (ToString i)"
  by (simp add: ToString_def DecimalDigits_no_comma)

lemma ToString_inj: "ToString i = ToString j \<Longrightarrow> i = j"
proof -
  assume eq: "ToString i = ToString j"
  have hd_nonneg: "hd (DecimalDigits k) \<noteq> CHR ''-''" for k
    using DecimalDigits_no_minus [of k] DecimalDigits_nonempty [of k]
    by (cases "DecimalDigits k") auto
  show ?thesis
  proof (cases "i < 0")
    case i: True
    show ?thesis
    proof (cases "j < 0")
      case True
      with i eq have "DecimalDigits (nat (- i)) = DecimalDigits (nat (- j))"
        by (simp add: ToString_def)
      then have "nat (- i) = nat (- j)" by (rule DecimalDigits_inj)
      with i True show ?thesis by simp
    next
      case False
      with i eq have "CHR ''-'' # DecimalDigits (nat (- i)) = DecimalDigits (nat j)"
        by (simp add: ToString_def)
      then have "hd (DecimalDigits (nat j)) = CHR ''-''" by (metis list.sel(1))
      with hd_nonneg show ?thesis by blast
    qed
  next
    case i: False
    show ?thesis
    proof (cases "j < 0")
      case True
      with i eq have "DecimalDigits (nat i) = CHR ''-'' # DecimalDigits (nat (- j))"
        by (simp add: ToString_def)
      then have "hd (DecimalDigits (nat i)) = CHR ''-''" by (metis list.sel(1))
      with hd_nonneg show ?thesis by blast
    next
      case False
      with i eq have "DecimalDigits (nat i) = DecimalDigits (nat j)"
        by (simp add: ToString_def)
      then have "nat i = nat j" by (rule DecimalDigits_inj)
      with i False show ?thesis by simp
    qed
  qed
qed

lemma cell_key_inj: "cell_key p = cell_key q \<Longrightarrow> p = q"
proof -
  assume "cell_key p = cell_key q"
  then have "ToString (pos_x p) @ CHR '','' # ToString (pos_y p)
             = ToString (pos_x q) @ CHR '','' # ToString (pos_y q)"
    by (simp add: cell_key_def)
  then have "ToString (pos_x p) = ToString (pos_x q) \<and> ToString (pos_y p) = ToString (pos_y q)"
    using append_Cons_eq_iff [OF ToString_no_comma ToString_no_comma] by blast
  then have "pos_x p = pos_x q \<and> pos_y p = pos_y q"
    by (blast dest: ToString_inj)
  then show ?thesis by (simp add: position.expand)
qed

lemma snakeSet_has: "cell_key p \<in> set (map cell_key sn) \<longleftrightarrow> p \<in> set sn"
  by (auto dest: cell_key_inj)

lemma empty_cells_eq: "empty_cells sn = filter (\<lambda>p. p \<notin> set sn) spaces"
  unfolding empty_cells_def Let_def using snakeSet_has by (auto intro: filter_cong)

lemma posEquals_eq: "posEquals a b \<longleftrightarrow> a = b"
  by (auto simp: posEquals_def position.expand)

lemma hits_segment_eq: "hits_segment h ps \<longleftrightarrow> h \<in> set ps"
  by (induction ps) (auto simp: posEquals_eq)

lemma set_spaces: "set spaces = {p. \<not> outside_grid p}"
proof -
  have "p \<in> set spaces \<longleftrightarrow> \<not> outside_grid p" for p
    by (cases p) (force simp: spaces_def outside_grid_def GRID_COLUMNS_def GRID_ROWS_def)
  then show ?thesis by blast
qed


subsection \<open>The rounded product\<close>

text \<open>
  The rounding moves a product \<open>x\<close> by at most \<open>x / 2^53\<close>, and it never moves it
  across an integer that \<open>x\<close> has reached. So the index that \<open>randomInt\<close> returns
  is below \<open>n\<close>, and it is \<open>i\<close> whenever \<open>i \<le> x\<close> and \<open>x (1 + 2^-53) < i + 1\<close>.
\<close>

lemma bitlen_rat_bounds:
  assumes "0 < p"
  shows "2 powi (bitlen p - 1) \<le> (of_int p :: rat)" and "(of_int p :: rat) < 2 powi bitlen p"
proof -
  from assms have bl: "1 \<le> bitlen p" by (auto simp: bitlen_alt_def)
  from bitlen_bounds [OF assms] have "2 ^ nat (bitlen p - 1) \<le> p" and "p < 2 ^ nat (bitlen p)"
    by simp_all
  then have "(of_int (2 ^ nat (bitlen p - 1)) :: rat) \<le> of_int p"
    and "(of_int p :: rat) < of_int (2 ^ nat (bitlen p))"
    by (simp_all only: of_int_le_iff of_int_less_iff)
  with bl show "2 powi (bitlen p - 1) \<le> (of_int p :: rat)"
    and "(of_int p :: rat) < 2 powi bitlen p"
    by (simp_all add: power_int_def)
qed

lemma binade_bounds:
  assumes "0 < x"
  shows "2 powi binade x \<le> x \<and> x < 2 powi (binade x + 1)"
proof -
  obtain p q where pq: "quotient_of x = (p, q)" by (cases "quotient_of x")
  then have q: "0 < q" and x: "x = of_int p / of_int q"
    by (simp_all add: quotient_of_denom_pos quotient_of_div)
  with assms have p: "0 < p" by (simp add: zero_less_divide_iff)
  let ?d = "bitlen p - bitlen q"
  note p1 = bitlen_rat_bounds(1) [OF p] and p2 = bitlen_rat_bounds(2) [OF p]
  note q1 = bitlen_rat_bounds(1) [OF q] and q2 = bitlen_rat_bounds(2) [OF q]
  have qpos: "(0::rat) < of_int q" using q by simp
  have up: "x < 2 powi (?d + 1)"
  proof -
    have "x * of_int q = of_int p" using qpos by (simp add: x)
    also have "\<dots> < 2 powi bitlen p" by (rule p2)
    also have "\<dots> = 2 powi (?d + 1) * 2 powi (bitlen q - 1)"
      by (simp flip: power_int_add)
    also have "\<dots> \<le> 2 powi (?d + 1) * of_int q"
      by (intro mult_left_mono q1) simp
    finally show ?thesis using qpos by simp
  qed
  have lo: "2 powi (?d - 1) < x"
  proof -
    have "(2::rat) powi (?d - 1) * of_int q < 2 powi (?d - 1) * 2 powi bitlen q"
      by (intro mult_strict_left_mono q2) simp
    also have "\<dots> = 2 powi (bitlen p - 1)"
      by (simp flip: power_int_add)
    also have "\<dots> \<le> of_int p" by (rule p1)
    also have "\<dots> = x * of_int q" using qpos by (simp add: x)
    finally show ?thesis using qpos by simp
  qed
  show ?thesis
  proof (cases "2 powi ?d \<le> x")
    case True
    with up show ?thesis by (simp add: binade_def pq)
  next
    case False
    with lo show ?thesis by (simp add: binade_def pq)
  qed
qed


lemma roundHalfEven_bounds:
  "y - 1 / 2 \<le> of_int (roundHalfEven y)" "of_int (roundHalfEven y) \<le> y + 1 / 2"
proof -
  define f where "f = \<lfloor>y\<rfloor>"
  have f: "of_int f \<le> y" "y < of_int f + 1" unfolding f_def by linarith+
  have r: "roundHalfEven y =
     (if y - of_int f < 1 / 2 then f else if 1 / 2 < y - of_int f then f + 1
      else if even f then f else f + 1)"
    by (simp add: roundHalfEven_def Let_def f_def)
  from f show "y - 1 / 2 \<le> of_int (roundHalfEven y)" "of_int (roundHalfEven y) \<le> y + 1 / 2"
    unfolding r by (auto split: if_splits)
qed

lemma roundHalfEven_ge: "of_int k \<le> y \<Longrightarrow> k \<le> roundHalfEven y"
proof -
  assume "of_int k \<le> y"
  then have "k \<le> \<lfloor>y\<rfloor>" by (simp add: le_floor_iff)
  moreover have "\<lfloor>y\<rfloor> \<le> roundHalfEven y" by (simp add: roundHalfEven_def Let_def)
  ultimately show ?thesis by simp
qed

lemma roundHalfEven_less: "y < of_int k - 1 / 2 \<Longrightarrow> roundHalfEven y < k"
proof -
  assume "y < of_int k - 1 / 2"
  with roundHalfEven_bounds(2) [of y] have "(of_int (roundHalfEven y) :: rat) < of_int k"
    by linarith
  then show ?thesis by simp
qed

lemma roundToDouble_pos:
  "0 < x \<Longrightarrow>
   roundToDouble x = of_int (roundHalfEven (x / 2 powi ulp_exponent x)) * 2 powi ulp_exponent x"
  by (simp add: roundToDouble_def ulp_exponent_def Let_def)

lemma ulp_exponent_le_0:
  assumes "0 < x" and "x < 2 ^ 53"
  shows "ulp_exponent x \<le> 0"
proof -
  from binade_bounds [OF assms(1)] assms(2) have "(2::rat) powi binade x < 2 powi 53"
    by simp
  then have "binade x < 53"
    by (metis linorder_not_less one_le_numeral power_int_increasing)
  then show ?thesis by (simp add: ulp_exponent_def)
qed

lemma half_ulp_le:
  assumes "0 < x"
  shows "2 powi ulp_exponent x / 2 \<le> max (x / 2 ^ 53) (1 / 2 ^ 1075)"
proof (cases "- 1074 \<le> binade x - 52")
  case True
  then have "ulp_exponent x = binade x - 52" by (simp add: ulp_exponent_def)
  then have "(2::rat) powi ulp_exponent x / 2 = 2 powi binade x / 2 ^ 53"
    by (simp add: power_int_diff)
  also have "\<dots> \<le> x / 2 ^ 53"
    using binade_bounds [OF assms] by (simp add: divide_right_mono)
  finally show ?thesis by simp
next
  case False
  then have "ulp_exponent x = - 1074" by (simp add: ulp_exponent_def)
  then have "(2::rat) powi ulp_exponent x / 2 = 1 / 2 ^ 1075"
    by (simp add: power_int_minus field_simps)
  then show ?thesis by simp
qed

lemma scaled_int:
  "e \<le> 0 \<Longrightarrow> (of_int k :: rat) / 2 powi e = of_int (k * 2 ^ nat (- e))"
  by (simp add: power_int_def field_simps)

lemma roundToDouble_ge:
  assumes "0 < x" and "x < 2 ^ 53" and "of_int k \<le> x"
  shows "of_int k \<le> roundToDouble x"
proof -
  let ?e = "ulp_exponent x"
  have e: "?e \<le> 0" using assms(1,2) by (rule ulp_exponent_le_0)
  have pos: "(0::rat) < 2 powi ?e" by simp
  have "(of_int (k * 2 ^ nat (- ?e)) :: rat) = of_int k / 2 powi ?e"
    using scaled_int [OF e, of k] by simp
  also have "\<dots> \<le> x / 2 powi ?e"
    using assms(3) pos by (simp add: divide_right_mono)
  finally have "k * 2 ^ nat (- ?e) \<le> roundHalfEven (x / 2 powi ?e)"
    by (rule roundHalfEven_ge)
  then have "(of_int (k * 2 ^ nat (- ?e)) :: rat) \<le> of_int (roundHalfEven (x / 2 powi ?e))"
    by (simp only: of_int_le_iff)
  then have "of_int k / 2 powi ?e \<le> (of_int (roundHalfEven (x / 2 powi ?e)) :: rat)"
    using scaled_int [OF e, of k] by simp
  then have "(of_int k :: rat) \<le> of_int (roundHalfEven (x / 2 powi ?e)) * 2 powi ?e"
    using pos by (simp add: pos_divide_le_eq)
  then show ?thesis by (simp add: roundToDouble_pos [OF assms(1)])
qed

lemma roundToDouble_less:
  assumes "0 < x" and "x < 2 ^ 53" and "x * (1 + 1 / 2 ^ 53) < of_int k"
  shows "roundToDouble x < of_int k"
proof -
  let ?e = "ulp_exponent x"
  have e: "?e \<le> 0" using assms(1,2) by (rule ulp_exponent_le_0)
  have pos: "(0::rat) < 2 powi ?e" by simp
  have gap: "2 powi ?e / 2 < of_int k - x"
  proof (cases "x / 2 ^ 53 \<le> 1 / 2 ^ 1075")
    case True
    then have x: "x \<le> 1 / 2" by (simp add: field_simps)
    from assms(1) have "0 < x * (1 + 1 / 2 ^ 53)" by simp
    with assms(3) have "(0::rat) < of_int k" by linarith
    then have "1 \<le> k" by simp
    then have "(1::rat) \<le> of_int k" by (simp only: of_int_1_le_iff)
    with x have "(1::rat) / 2 \<le> of_int k - x" by linarith
    moreover have "(2::rat) powi ?e / 2 \<le> 1 / 2 ^ 1075"
      using half_ulp_le [OF assms(1)] True by simp
    moreover have "(1::rat) / 2 ^ 1075 < 1 / 2" by simp
    ultimately show ?thesis by linarith
  next
    case False
    with half_ulp_le [OF assms(1)] have "2 powi ?e / 2 \<le> x / 2 ^ 53" by simp
    moreover from assms(3) have "x / 2 ^ 53 < of_int k - x" by (simp add: algebra_simps)
    ultimately show ?thesis by linarith
  qed
  have "x / 2 powi ?e < of_int k / 2 powi ?e - 1 / 2"
  proof -
    from gap have "x < of_int k - 2 powi ?e / 2" by linarith
    then have "x / 2 powi ?e < (of_int k - 2 powi ?e / 2) / 2 powi ?e"
      using pos by (simp add: divide_strict_right_mono)
    also have "\<dots> = of_int k / 2 powi ?e - 1 / 2"
      using pos by (simp add: diff_divide_distrib)
    finally show ?thesis .
  qed
  then have "x / 2 powi ?e < of_int (k * 2 ^ nat (- ?e)) - 1 / 2"
    using scaled_int [OF e, of k] by simp
  then have "roundHalfEven (x / 2 powi ?e) < k * 2 ^ nat (- ?e)"
    by (rule roundHalfEven_less)
  then have "(of_int (roundHalfEven (x / 2 powi ?e)) :: rat) < of_int (k * 2 ^ nat (- ?e))"
    by (simp only: of_int_less_iff)
  then have "(of_int (roundHalfEven (x / 2 powi ?e)) :: rat) < of_int k / 2 powi ?e"
    using scaled_int [OF e, of k] by simp
  then have "(of_int (roundHalfEven (x / 2 powi ?e)) :: rat) * 2 powi ?e < of_int k"
    using pos by (simp add: pos_less_divide_eq)
  then show ?thesis by (simp add: roundToDouble_pos [OF assms(1)])
qed


lemma draw_range: "0 \<le> Rep_draw u" "Rep_draw u \<le> 1 - 1 / 2 ^ 53"
proof -
  from Rep_draw [of u] obtain m e where u0: "0 \<le> Rep_draw u" and u1: "Rep_draw u < 1"
    and u: "Rep_draw u = of_nat m / 2 ^ e" and m: "m < 2 ^ 53" by auto
  show "0 \<le> Rep_draw u" by (rule u0)
  show "Rep_draw u \<le> 1 - 1 / 2 ^ 53"
  proof (cases "e \<le> 53")
    case True
    then have "(2::rat) ^ (53 - e) = 2 ^ 53 / 2 ^ e" by (simp add: power_diff)
    then have "Rep_draw u * 2 ^ 53 = of_nat (m * 2 ^ (53 - e))" unfolding u by simp
    moreover from u1 have "Rep_draw u * 2 ^ 53 < 2 ^ 53" by simp
    ultimately have "(of_nat (m * 2 ^ (53 - e)) :: rat) < of_nat (2 ^ 53)" by simp
    then have "m * 2 ^ (53 - e) < 2 ^ 53" by (simp only: of_nat_less_iff)
    then have "m * 2 ^ (53 - e) + 1 \<le> 2 ^ 53" by simp
    then have "(of_nat (m * 2 ^ (53 - e) + 1) :: rat) \<le> of_nat (2 ^ 53)"
      by (simp only: of_nat_le_iff)
    then have "Rep_draw u * 2 ^ 53 + 1 \<le> 2 ^ 53"
      using \<open>Rep_draw u * 2 ^ 53 = of_nat (m * 2 ^ (53 - e))\<close> by simp
    then show ?thesis by (simp add: field_simps)
  next
    case False
    then have "(2::rat) ^ 53 \<le> 2 ^ e" by (intro power_increasing) simp_all
    from m have "m + 1 \<le> 2 ^ 53" by simp
    then have "(of_nat (m + 1) :: rat) \<le> of_nat (2 ^ 53)" by (simp only: of_nat_le_iff)
    then have "(of_nat m :: rat) \<le> 2 ^ 53 - 1" by simp
    then have "Rep_draw u \<le> (2 ^ 53 - 1) / 2 ^ e" by (simp add: u divide_right_mono)
    also have "\<dots> \<le> (2 ^ 53 - 1) / 2 ^ 53"
      using \<open>(2::rat) ^ 53 \<le> 2 ^ e\<close> by (intro divide_left_mono) simp_all
    finally show ?thesis by (simp add: field_simps)
  qed
qed

lemma floor_roundToDouble_less:
  assumes "0 \<le> x" and "x < 2 ^ 53" and "x * (1 + 1 / 2 ^ 53) < of_nat n"
  shows "nat \<lfloor>roundToDouble x\<rfloor> < n"
proof (cases "x = 0")
  case True
  with assms(3) show ?thesis by (simp add: roundToDouble_def)
next
  case False
  with assms(1) have p: "0 < x" by simp
  from assms(3) have "x * (1 + 1 / 2 ^ 53) < of_int (int n)" by simp
  from roundToDouble_less [OF p assms(2) this] have "\<lfloor>roundToDouble x\<rfloor> < int n"
    by (simp only: floor_less_iff)
  moreover have "of_int 0 \<le> x" using assms(1) by simp
  from roundToDouble_ge [OF p assms(2) this] have "0 \<le> \<lfloor>roundToDouble x\<rfloor>"
    by (simp only: le_floor_iff)
  ultimately show ?thesis by arith
qed

lemma floor_roundToDouble_eqI:
  assumes "x < 2 ^ 53" and "of_nat i \<le> x" and "x * (1 + 1 / 2 ^ 53) < of_nat (i + 1)"
  shows "nat \<lfloor>roundToDouble x\<rfloor> = i"
proof (cases "x = 0")
  case True
  with assms(2) show ?thesis by (simp add: roundToDouble_def)
next
  case False
  have "(0::rat) \<le> of_nat i" by simp
  from this assms(2) have "0 \<le> x" by (rule order_trans)
  with False have p: "0 < x" by simp
  from assms(2) have "of_int (int i) \<le> x" by simp
  from roundToDouble_ge [OF p assms(1) this] have lo: "int i \<le> \<lfloor>roundToDouble x\<rfloor>"
    by (simp only: le_floor_iff)
  from assms(3) have "x * (1 + 1 / 2 ^ 53) < of_int (int i + 1)" by simp
  from roundToDouble_less [OF p assms(1) this] have hi: "\<lfloor>roundToDouble x\<rfloor> < int i + 1"
    by (simp only: floor_less_iff)
  from lo hi show ?thesis by linarith
qed


lemma product_range:
  assumes "n \<le> 2 ^ 53"
  shows "0 \<le> Rep_draw u * of_nat n" and "Rep_draw u * of_nat n < 2 ^ 53"
    and "0 < n \<Longrightarrow> Rep_draw u * of_nat n * (1 + 1 / 2 ^ 53) < of_nat n"
proof -
  note u = draw_range [of u]
  show "0 \<le> Rep_draw u * of_nat n" using u(1) by simp
  have "(of_nat n :: rat) \<le> of_nat (2 ^ 53)" using assms by (simp only: of_nat_le_iff)
  then have n: "(of_nat n :: rat) \<le> 2 ^ 53" by simp
  have "Rep_draw u * of_nat n \<le> (1 - 1 / 2 ^ 53) * of_nat n"
    using u(2) by (intro mult_right_mono) simp_all
  also have "\<dots> \<le> (1 - 1 / 2 ^ 53) * 2 ^ 53"
    using n by (intro mult_left_mono) simp_all
  also have "\<dots> < 2 ^ 53" by simp
  finally show "Rep_draw u * of_nat n < 2 ^ 53" .
  assume "0 < n"
  have "Rep_draw u * (1 + 1 / 2 ^ 53) \<le> (1 - 1 / 2 ^ 53) * (1 + 1 / 2 ^ 53)"
    using u(2) by (intro mult_right_mono) simp_all
  also have "\<dots> < 1" by simp
  finally have "Rep_draw u * (1 + 1 / 2 ^ 53) * of_nat n < 1 * of_nat n"
    using \<open>0 < n\<close> by (intro mult_strict_right_mono) simp_all
  then show "Rep_draw u * of_nat n * (1 + 1 / 2 ^ 53) < of_nat n"
    by (simp add: mult_ac)
qed

lemma randomInt_less:
  assumes "0 < n" and "n \<le> 2 ^ 53"
  shows "randomInt u n < n"
  unfolding randomInt_def
  by (rule floor_roundToDouble_less [OF product_range(1,2) [OF assms(2)]
        product_range(3) [OF assms(2,1)]])

lemma randomInt_eqI:
  assumes "n \<le> 2 ^ 53" and "of_nat i \<le> Rep_draw u * of_nat n"
    and "Rep_draw u * of_nat n * (1 + 1 / 2 ^ 53) < of_nat (i + 1)"
  shows "randomInt u n = i"
  unfolding randomInt_def
  by (rule floor_roundToDouble_eqI [OF product_range(2) [OF assms(1)] assms(2,3)])



lemma length_spaces: "length spaces = 441"
  by code_simp

lemma length_empty_cells: "length (empty_cells sn) \<le> 2 ^ 51"
proof -
  have "length (empty_cells sn) \<le> length spaces"
    by (simp add: empty_cells_eq)
  then show ?thesis by (simp add: length_spaces)
qed

subsection \<open>The branches of tick\<close>

lemma tick_stopped: "isPaused s \<or> isGameOver s \<Longrightarrow> tick u s = Inr s"
  by (simp add: tick_def)

lemma tick_empty:
  "\<not> isPaused s \<Longrightarrow> \<not> isGameOver s \<Longrightarrow> snake s = [] \<Longrightarrow> tick u s = Inl TypeError"
  by (simp add: tick_def)

lemma tick_fatal:
  "\<not> isPaused s \<Longrightarrow> \<not> isGameOver s \<Longrightarrow> snake s = h # t \<Longrightarrow> fatal s h \<Longrightarrow>
   tick u s = Inr (gameOver (s\<lparr>currentDirection := pendingDirection s\<rparr>))"
  by (auto simp: tick_def fatal_def head_after_commit_def hits_segment_eq Let_def)

lemma tick_eat:
  "\<not> isPaused s \<Longrightarrow> \<not> isGameOver s \<Longrightarrow> snake s = h # t \<Longrightarrow> \<not> fatal s h \<Longrightarrow>
   head_after_commit s h = food s \<Longrightarrow>
   tick u s = Inr (s\<lparr>currentDirection := pendingDirection s,
                      snake := food s # snake s,
                      score := score s + 1,
                      speedIntervalMs :=
                        (if (score s + 1) mod 5 = 0 then max 45 (speedIntervalMs s * 92 div 100)
                         else speedIntervalMs s),
                      food := spawnFood u (food s # snake s)\<rparr>)"
  by (auto simp: tick_def fatal_def head_after_commit_def hits_segment_eq Let_def posEquals_eq
      SPEEDUP_EVERY_POINTS_def)

lemma tick_move:
  "\<not> isPaused s \<Longrightarrow> \<not> isGameOver s \<Longrightarrow> snake s = h # t \<Longrightarrow> \<not> fatal s h \<Longrightarrow>
   head_after_commit s h \<noteq> food s \<Longrightarrow>
   tick u s = Inr (s\<lparr>currentDirection := pendingDirection s,
                      snake := head_after_commit s h # butlast (snake s)\<rparr>)"
  by (auto simp: tick_def fatal_def head_after_commit_def hits_segment_eq Let_def posEquals_eq)

subsection \<open>The state after reset\<close>

lemma initial_snake:
  "reset_loop (GRID_COLUMNS div 3) (GRID_ROWS div 2) INITIAL_SNAKE_LENGTH []
     = [Pos 4 10, Pos 5 10, Pos 6 10, Pos 7 10]"
  by (simp add: GRID_COLUMNS_def GRID_ROWS_def INITIAL_SNAKE_LENGTH_def eval_nat_numeral)

lemma reset_eq:
  "reset u s =
     s\<lparr>score := 0, isPaused := False, isGameOver := False,
       speedIntervalMs := 120, speedMultiplier := 1,
       pendingDirection := Right, currentDirection := Right,
       snake := [Pos 4 10, Pos 5 10, Pos 6 10, Pos 7 10],
       food := spawnFood u [Pos 4 10, Pos 5 10, Pos 6 10, Pos 7 10]\<rparr>"
  by (simp add: reset_def Let_def initial_snake BASE_SPEED_MS_def)

subsection \<open>Ticks of a stopped game\<close>

text \<open>
  C8. When the game is paused or over, \<open>tick\<close> returns at once: after any number of
  ticks, whatever the random draws, the state is the state before them, field by field
  (snake, score, food, speed interval, both directions and all the rest).
\<close>

theorem tick_stopped_noop:
  "isPaused s \<or> isGameOver s \<Longrightarrow> run (map Tick us) s = Inr s"
  by (induction us) (simp_all add: tick_stopped)

theorem tick_stopped_noop_witness:
  "isPaused (togglePause (constructor Map.empty draw_zero)) \<and>
   run (map Tick [draw_zero, draw_zero, draw_zero]) (togglePause (constructor Map.empty draw_zero))
     = Inr (togglePause (constructor Map.empty draw_zero))"
proof -
  have "isPaused (togglePause (constructor Map.empty draw_zero))"
    by (simp add: togglePause_def constructor_def reset_eq)
  then show ?thesis
    using tick_stopped_noop [of "togglePause (constructor Map.empty draw_zero)"
        "[draw_zero, draw_zero, draw_zero]"]
    by simp
qed

subsection \<open>Invariants of the reachable states\<close>

lemma tick_cases [consumes 1, case_names stopped fatal eat move]:
  assumes "tick u s = Inr s'"
  obtains
    "isPaused s \<or> isGameOver s" "s' = s"
  | h t where "\<not> isPaused s" "\<not> isGameOver s" "snake s = h # t" "fatal s h"
      "s' = gameOver (s\<lparr>currentDirection := pendingDirection s\<rparr>)"
  | h t where "\<not> isPaused s" "\<not> isGameOver s" "snake s = h # t" "\<not> fatal s h"
      "head_after_commit s h = food s"
      "s' = s\<lparr>currentDirection := pendingDirection s,
                snake := food s # snake s,
                score := score s + 1,
                speedIntervalMs :=
                  (if (score s + 1) mod 5 = 0 then max 45 (speedIntervalMs s * 92 div 100)
                   else speedIntervalMs s),
                food := spawnFood u (food s # snake s)\<rparr>"
  | h t where "\<not> isPaused s" "\<not> isGameOver s" "snake s = h # t" "\<not> fatal s h"
      "head_after_commit s h \<noteq> food s"
      "s' = s\<lparr>currentDirection := pendingDirection s,
                snake := head_after_commit s h # butlast (snake s)\<rparr>"
proof (cases "isPaused s \<or> isGameOver s")
  case True
  with assms have "s' = s" by (simp add: tick_stopped)
  with True show ?thesis by (rule that(1))
next
  case run: False
  then have r: "\<not> isPaused s" "\<not> isGameOver s" by simp_all
  show ?thesis
  proof (cases "snake s")
    case Nil
    with r assms show ?thesis by (simp add: tick_empty)
  next
    case (Cons h t)
    show ?thesis
    proof (cases "fatal s h")
      case True
      from assms have "s' = gameOver (s\<lparr>currentDirection := pendingDirection s\<rparr>)"
        by (simp add: tick_fatal [OF r Cons True])
      with r Cons True show ?thesis by (rule that(2))
    next
      case nf: False
      show ?thesis
      proof (cases "head_after_commit s h = food s")
        case True
        from assms tick_eat [OF r Cons nf True, of u] show ?thesis
          by (intro that(3) [OF r Cons nf True]) simp
      next
        case False
        from assms tick_move [OF r Cons nf False, of u] show ?thesis
          by (intro that(4) [OF r Cons nf False]) simp
      qed
    qed
  qed
qed

lemma tick_total: "snake s \<noteq> [] \<Longrightarrow> \<exists>s'. tick u s = Inr s'"
  by (cases "snake s") (auto simp: tick_def Let_def)

lemma not_isOpposite_same: "\<not> isOpposite d d"
  by (cases d) (simp_all add: isOpposite_def)

lemma gameOver_fields:
  "snake (gameOver s) = snake s" "score (gameOver s) = score s" "food (gameOver s) = food s"
  "speedIntervalMs (gameOver s) = speedIntervalMs s"
  "pendingDirection (gameOver s) = pendingDirection s"
  "currentDirection (gameOver s) = currentDirection s"
  "isPaused (gameOver s) = isPaused s" "isGameOver (gameOver s)"
  by (simp_all add: gameOver_def Let_def)

lemma sound_reset: "sound (reset u s)"
  by (simp add: sound_def reset_eq isOpposite_def)

lemma sound_setDirection: "sound s \<Longrightarrow> sound (setDirection d s)"
  by (auto simp: sound_def setDirection_def split: option.splits)

lemma sound_togglePause: "sound s \<Longrightarrow> sound (togglePause s)"
  by (simp add: sound_def togglePause_def)

lemma sound_tick:
  assumes "sound s" and "tick u s = Inr s'"
  shows "sound s'"
  using assms(2)
proof (cases rule: tick_cases)
  case stopped
  with assms(1) show ?thesis by simp
next
  case (fatal h t)
  with assms(1) show ?thesis
    by (simp add: sound_def gameOver_fields not_isOpposite_same)
next
  case (eat h t)
  from eat(4,5) have "food s \<notin> set (snake s)" by (simp add: fatal_def)
  with assms(1) eat(6) show ?thesis
    by (auto simp: sound_def not_isOpposite_same)
next
  case (move h t)
  let ?nh = "head_after_commit s h"
  from move(4) have "?nh \<notin> set (snake s)" by (simp add: fatal_def)
  then have "?nh \<notin> set (butlast (snake s))"
    by (blast dest: in_set_butlastD)
  moreover from assms(1) have "distinct (butlast (snake s))"
    by (simp add: sound_def distinct_butlast)
  ultimately have d: "distinct (?nh # butlast (snake s))" by simp
  from move(3) have l: "length (?nh # butlast (snake s)) = length (snake s)" by simp
  from assms(1) d l show ?thesis
    unfolding move(6) sound_def by (simp add: not_isOpposite_same)
qed

lemma sound_exec: "sound s \<Longrightarrow> exec c s = Inr s' \<Longrightarrow> sound s'"
  by (cases c) (auto simp: sound_reset sound_setDirection sound_togglePause sound_tick)

lemma reachable_sound: "reachable s \<Longrightarrow> sound s"
  by (induction rule: reachable.induct) (auto simp: constructor_def sound_reset sound_exec)

lemma exec_total: "snake s \<noteq> [] \<Longrightarrow> \<exists>s'. exec c s = Inr s'"
  by (cases c) (simp_all add: tick_total)

subsection \<open>A first game\<close>

lemma empty_initial_length:
  "length (empty_cells [Pos 4 10, Pos 5 10, Pos 6 10, Pos 7 10]) = 437"
  by code_simp

lemma empty_initial_nth:
  "empty_cells [Pos 4 10, Pos 5 10, Pos 6 10, Pos 7 10] ! 193 = Pos 4 9"
  by code_simp

lemma randomInt_example: "randomInt (draw_of 453 10) 437 = 193"
  by (rule randomInt_eqI) (simp_all add: draw_of.rep_eq)

lemma spawnFood_example:
  "spawnFood (draw_of 453 10) [Pos 4 10, Pos 5 10, Pos 6 10, Pos 7 10] = Pos 4 9"
proof -
  have "empty_cells [Pos 4 10, Pos 5 10, Pos 6 10, Pos 7 10] \<noteq> []"
    using empty_initial_length by auto
  then show ?thesis
    by (simp add: spawnFood_def Let_def empty_initial_length randomInt_example empty_initial_nth)
qed

lemma start_game_eq:
  "start_game =
     \<lparr>bestScore = Finite 0, score = 0, isPaused = False, isGameOver = False,
      speedIntervalMs = 120, speedMultiplier = 1,
      pendingDirection = Right, currentDirection = Right,
      snake = [Pos 4 10, Pos 5 10, Pos 6 10, Pos 7 10], food = Pos 4 9,
      localStorage = Map.empty\<rparr>"
  by (simp add: constructor_def reset_eq spawnFood_example read_bestScore_def)

lemma start_up_eq:
  "setDirection (Some Up) start_game =
     \<lparr>bestScore = Finite 0, score = 0, isPaused = False, isGameOver = False,
      speedIntervalMs = 120, speedMultiplier = 1,
      pendingDirection = Up, currentDirection = Right,
      snake = [Pos 4 10, Pos 5 10, Pos 6 10, Pos 7 10], food = Pos 4 9,
      localStorage = Map.empty\<rparr>"
  by (simp add: setDirection_def start_game_eq isOpposite_def)

lemma start_up_tick:
  "tick u (setDirection (Some Up) start_game) =
     Inr \<lparr>bestScore = Finite 0, score = 1, isPaused = False, isGameOver = False,
          speedIntervalMs = 120, speedMultiplier = 1,
          pendingDirection = Up, currentDirection = Up,
          snake = [Pos 4 9, Pos 4 10, Pos 5 10, Pos 6 10, Pos 7 10],
          food = spawnFood u [Pos 4 9, Pos 4 10, Pos 5 10, Pos 6 10, Pos 7 10],
          localStorage = Map.empty\<rparr>"
proof -
  let ?s = "setDirection (Some Up) start_game"
  have h: "head_after_commit ?s (Pos 4 10) = Pos 4 9"
    unfolding start_up_eq by (simp add: head_after_commit_def nextHead_def)
  have nf: "\<not> fatal ?s (Pos 4 10)"
    unfolding fatal_def h unfolding start_up_eq
    by (simp add: outside_grid_def GRID_COLUMNS_def GRID_ROWS_def)
  have f: "head_after_commit ?s (Pos 4 10) = food ?s"
    unfolding h unfolding start_up_eq by simp
  have sn: "snake ?s = Pos 4 10 # [Pos 5 10, Pos 6 10, Pos 7 10]"
    unfolding start_up_eq by simp
  have r: "\<not> isPaused ?s" "\<not> isGameOver ?s"
    unfolding start_up_eq by simp_all
  show ?thesis
    unfolding tick_eat [OF r sn nf f] unfolding start_up_eq by simp
qed

lemma start_tick:
  "tick u start_game =
     Inr \<lparr>bestScore = Finite 0, score = 0, isPaused = False, isGameOver = True,
          speedIntervalMs = 120, speedMultiplier = 1,
          pendingDirection = Right, currentDirection = Right,
          snake = [Pos 4 10, Pos 5 10, Pos 6 10, Pos 7 10], food = Pos 4 9,
          localStorage = Map.empty\<rparr>"
proof -
  have "fatal start_game (Pos 4 10)"
    by (simp add: fatal_def head_after_commit_def nextHead_def start_game_eq)
  then have "tick u start_game = Inr (gameOver (start_game\<lparr>currentDirection := pendingDirection start_game\<rparr>))"
    by (intro tick_fatal [where t = "[Pos 5 10, Pos 6 10, Pos 7 10]"]) (simp_all add: start_game_eq)
  then show ?thesis by (simp add: start_game_eq gameOver_def)
qed

subsection \<open>The snake never overlaps itself\<close>

text \<open>
  C10. In every state that the constructor followed by any calls of \<open>reset\<close>,
  \<open>setDirection\<close>, \<open>togglePause\<close> and \<open>tick\<close> can reach, no two segments of the
  snake are the same cell. The tick that ends the game is no exception: it calls
  \<open>gameOver\<close> before the new head is prepended, so it leaves the snake as it was.
\<close>

theorem snake_never_overlaps:
  "reachable s \<Longrightarrow>
     distinct (snake s) \<and>
     (\<forall>u s'. tick u s = Inr s' \<and> isGameOver s' \<longrightarrow> snake s' = snake s \<and> distinct (snake s'))"
proof -
  assume r: "reachable s"
  then have d: "distinct (snake s)" using reachable_sound by (simp add: sound_def)
  have "snake s' = snake s" if "tick u s = Inr s'" "isGameOver s'" for u s'
    using that by (cases rule: tick_cases) (simp_all add: gameOver_fields)
  with d show ?thesis by auto
qed

theorem snake_never_overlaps_witness:
  "reachable start_game \<and> distinct (snake start_game) \<and>
   (\<exists>s'. tick draw_zero start_game = Inr s' \<and> isGameOver s' \<and> snake s' = snake start_game
      \<and> distinct (snake s'))"
proof -
  have r: "reachable start_game" by (rule reachable.start)
  have t: "isGameOver (projr (tick draw_zero start_game))"
    "snake (projr (tick draw_zero start_game)) = snake start_game"
    by (simp_all add: start_tick) (simp add: start_game_eq)
  have e: "tick draw_zero start_game = Inr (projr (tick draw_zero start_game))"
    by (simp add: start_tick)
  from snake_never_overlaps [OF r] r t e show ?thesis
    by blast
qed

subsection \<open>The end of a game\<close>

lemma isGameOver_other:
  "isGameOver (setDirection d s) = isGameOver s"
  "isGameOver (togglePause s) = isGameOver s"
  "\<not> isGameOver (reset u s)"
  by (simp_all add: setDirection_def togglePause_def reset_eq split: option.split)

text \<open>
  C3. A tick of a running game ends the game exactly when the next head (the head moved
  by the direction the tick commits) is outside the grid or is a cell of the snake as it
  is. Such a tick stops there: snake, score, food and speed interval are as before. No
  other call sets \<open>isGameOver\<close>: a call that does is a tick of a running game with such
  a collision. Only \<open>reset\<close> clears it. A reachable state has a head, so the tick does
  not throw.
\<close>

theorem tick_game_over_iff:
  "(\<not> isPaused s \<and> \<not> isGameOver s \<and> snake s = h # t \<longrightarrow>
      (\<exists>s'. tick u s = Inr s'
         \<and> (isGameOver s' \<longleftrightarrow>
              outside_grid (head_after_commit s h) \<or> head_after_commit s h \<in> set (snake s))
         \<and> (isGameOver s' \<longrightarrow>
              snake s' = snake s \<and> score s' = score s \<and> food s' = food s
              \<and> speedIntervalMs s' = speedIntervalMs s)))
   \<and> (exec c s = Inr s1 \<and> \<not> isGameOver s \<and> isGameOver s1 \<longrightarrow>
        (\<exists>v. c = Tick v) \<and> \<not> isPaused s
        \<and> (\<exists>h' t'. snake s = h' # t'
              \<and> (outside_grid (head_after_commit s h') \<or> head_after_commit s h' \<in> set (snake s))))
   \<and> (exec c s = Inr s1 \<and> isGameOver s \<and> \<not> isGameOver s1 \<longrightarrow> (\<exists>v. c = Reset v))
   \<and> (reachable s \<longrightarrow> snake s \<noteq> [])"
proof -
  have ne: "snake s \<noteq> []" if "reachable s"
    using reachable_sound [OF that] by (auto simp: sound_def)
  have a: "\<exists>s'. tick u s = Inr s'
         \<and> (isGameOver s' \<longleftrightarrow> fatal s h)
         \<and> (isGameOver s' \<longrightarrow>
              snake s' = snake s \<and> score s' = score s \<and> food s' = food s
              \<and> speedIntervalMs s' = speedIntervalMs s)"
    if r: "\<not> isPaused s" "\<not> isGameOver s" and sn: "snake s = h # t"
  proof (cases "fatal s h")
    case True
    show ?thesis
      unfolding tick_fatal [OF r sn True] using True by (simp add: gameOver_fields)
  next
    case nf: False
    show ?thesis
    proof (cases "head_after_commit s h = food s")
      case True
      show ?thesis unfolding tick_eat [OF r sn nf True] using nf r by simp
    next
      case False
      show ?thesis unfolding tick_move [OF r sn nf False] using nf r by simp
    qed
  qed
  have tick_over: "(\<not> isPaused s \<and> (\<exists>h' t'. snake s = h' # t' \<and> fatal s h'))"
    if "tick v s = Inr s1" "\<not> isGameOver s" "isGameOver s1" for v
    using that by (cases rule: tick_cases) auto
  have b: "(\<exists>v. c = Tick v) \<and> \<not> isPaused s \<and> (\<exists>h' t'. snake s = h' # t' \<and> fatal s h')"
    if "exec c s = Inr s1" "\<not> isGameOver s" "isGameOver s1"
    using that tick_over
    by (cases c) (auto simp: isGameOver_other)
  have tick_clear: False if "tick v s = Inr s1" "isGameOver s" "\<not> isGameOver s1" for v
    using that by (simp add: tick_stopped)
  have c: "\<exists>v. c = Reset v" if "exec c s = Inr s1" "isGameOver s" "\<not> isGameOver s1"
    using that tick_clear
    by (cases c) (auto simp: isGameOver_other)
  from a b c ne show ?thesis unfolding fatal_def by blast
qed

theorem tick_game_over_iff_witness:
  "\<not> isPaused start_game \<and> \<not> isGameOver start_game
   \<and> snake start_game = Pos 4 10 # [Pos 5 10, Pos 6 10, Pos 7 10]
   \<and> head_after_commit start_game (Pos 4 10) = Pos 5 10
   \<and> (\<exists>s'. tick draw_zero start_game = Inr s' \<and> isGameOver s'
         \<and> snake s' = snake start_game \<and> score s' = score start_game
         \<and> food s' = food start_game \<and> speedIntervalMs s' = speedIntervalMs start_game)"
proof -
  have r: "\<not> isPaused start_game" "\<not> isGameOver start_game"
    and sn: "snake start_game = Pos 4 10 # [Pos 5 10, Pos 6 10, Pos 7 10]"
    by (simp_all add: start_game_eq)
  have h: "head_after_commit start_game (Pos 4 10) = Pos 5 10"
    by (simp add: start_game_eq head_after_commit_def nextHead_def)
  have m: "Pos 5 10 \<in> set (snake start_game)" by (simp add: sn)
  from tick_game_over_iff [of start_game "Pos 4 10" "[Pos 5 10, Pos 6 10, Pos 7 10]" draw_zero]
    r sn h m
  show ?thesis by auto
qed

subsection \<open>The length of the snake\<close>

text \<open>
  C4. Every tick that returns (and it returns whenever the snake has a head, as in every
  reachable state) leaves the snake one longer when it moved the snake and the new head
  is the food cell, and as long as before otherwise: when no food is eaten, when the tick
  ends the game, when it does nothing. The new head of a tick that moves is the next head
  the tick computed.
\<close>

theorem tick_length:
  "(snake s \<noteq> [] \<longrightarrow> (\<exists>s'. tick u s = Inr s'))
   \<and> (\<forall>s'. tick u s = Inr s' \<longrightarrow>
         length (snake s') =
           length (snake s) + (if moved s \<and> hd (snake s') = food s then 1 else 0))
   \<and> (moved s \<longrightarrow> (\<exists>h t. snake s = h # t \<and> (\<forall>s'. tick u s = Inr s' \<longrightarrow>
         hd (snake s') = head_after_commit s h)))
   \<and> (reachable s \<longrightarrow> snake s \<noteq> [])"
proof -
  have ne: "snake s \<noteq> []" if "reachable s"
    using reachable_sound [OF that] by (auto simp: sound_def)
  have hd: "\<exists>h t. snake s = h # t \<and> (\<forall>s'. tick u s = Inr s' \<longrightarrow>
         hd (snake s') = head_after_commit s h)" if m: "moved s"
  proof -
    from m obtain h t where sn: "snake s = h # t" and nf: "\<not> fatal s h"
      and r: "\<not> isPaused s" "\<not> isGameOver s"
      by (auto simp: moved_def split: list.splits)
    have "hd (snake s') = head_after_commit s h" if "tick u s = Inr s'" for s'
      using that tick_eat [OF r sn nf, of u] tick_move [OF r sn nf, of u]
      by (cases "head_after_commit s h = food s") auto
    with sn show ?thesis by blast
  qed
  have "length (snake s') =
           length (snake s) + (if moved s \<and> hd (snake s') = food s then 1 else 0)"
    if "tick u s = Inr s'" for s'
    using that
  proof (cases rule: tick_cases)
    case stopped
    then show ?thesis by (auto simp: moved_def)
  next
    case (fatal h t)
    then show ?thesis by (simp add: moved_def gameOver_fields)
  next
    case (eat h t)
    then show ?thesis by (simp add: moved_def)
  next
    case (move h t)
    then show ?thesis by (simp add: moved_def)
  qed
  with tick_total [of s u] hd ne show ?thesis by blast
qed

theorem tick_length_witness:
  "snake (setDirection (Some Up) start_game) \<noteq> []
   \<and> moved (setDirection (Some Up) start_game)
   \<and> (\<exists>s'. tick draw_zero (setDirection (Some Up) start_game) = Inr s'
         \<and> hd (snake s') = food (setDirection (Some Up) start_game)
         \<and> length (snake (setDirection (Some Up) start_game)) = 4
         \<and> length (snake s') = 5)
   \<and> \<not> moved start_game
   \<and> (\<exists>s'. tick draw_zero start_game = Inr s' \<and> length (snake s') = 4)"
proof -
  let ?s = "setDirection (Some Up) start_game"
  have h: "head_after_commit ?s (Pos 4 10) = Pos 4 9"
    unfolding start_up_eq by (simp add: head_after_commit_def nextHead_def)
  have "\<not> fatal ?s (Pos 4 10)"
    unfolding fatal_def h unfolding start_up_eq
    by (simp add: outside_grid_def GRID_COLUMNS_def GRID_ROWS_def)
  then have m: "moved ?s"
    unfolding moved_def unfolding start_up_eq by simp
  have "fatal start_game (Pos 4 10)"
    by (simp add: fatal_def head_after_commit_def nextHead_def start_game_eq)
  then have n: "\<not> moved start_game"
    by (simp add: moved_def start_game_eq)
  have f: "hd (snake (projr (tick draw_zero ?s))) = food ?s"
    unfolding start_up_tick unfolding start_up_eq by simp
  have l: "length (snake ?s) = 4" "length (snake start_game) = 4"
    unfolding start_up_eq by (simp_all add: start_game_eq)
  have e: "tick draw_zero ?s = Inr (projr (tick draw_zero ?s))"
    "tick draw_zero start_game = Inr (projr (tick draw_zero start_game))"
    by (simp_all add: start_up_tick start_tick)
  from tick_length [of ?s draw_zero] tick_length [of start_game draw_zero] m n f l e
  show ?thesis by auto
qed

subsection \<open>Score and speed\<close>

lemmas game_eval =
  tick_def Let_def nextHead_def outside_grid_def GRID_COLUMNS_def GRID_ROWS_def posEquals_def
  gameOver_def SPEEDUP_EVERY_POINTS_def setDirection_def isOpposite_def togglePause_def
  HIGH_SCORE_KEY_def

lemma floor_92: "\<lfloor>of_int v * (92 / 100 :: rat)\<rfloor> = v * 92 div 100"
proof -
  have "of_int v * (92 / 100 :: rat) = of_int (v * 92) / of_int 100" by simp
  then show ?thesis by (simp only: floor_divide_of_int_eq)
qed

lemma session_exec:
  assumes "sound s" and "exec c s = Inr s'" and "\<forall>v. c \<noteq> Reset v"
  shows "score s \<le> score s' \<and> speedIntervalMs s' \<le> speedIntervalMs s
         \<and> (score s' = score s \<longrightarrow> speedIntervalMs s' = speedIntervalMs s)"
proof (cases c)
  case (Reset v)
  with assms(3) show ?thesis by simp
next
  case (SetDirection d)
  with assms(2) show ?thesis by (auto simp: setDirection_def split: option.splits)
next
  case TogglePause
  with assms(2) show ?thesis by (auto simp: togglePause_def)
next
  case (Tick v)
  with assms(2) have "tick v s = Inr s'" by simp
  then show ?thesis
  proof (cases rule: tick_cases)
    case (eat h t)
    from assms(1) have "45 \<le> speedIntervalMs s" by (simp add: sound_def)
    then have "max 45 (speedIntervalMs s * 92 div 100) \<le> speedIntervalMs s" by simp
    with eat(6) show ?thesis by simp
  qed (simp_all add: gameOver_fields)
qed

lemma session_run:
  "sound s \<Longrightarrow> run cs s = Inr s' \<Longrightarrow> \<forall>v. Reset v \<notin> set cs \<Longrightarrow>
     score s \<le> score s' \<and> speedIntervalMs s' \<le> speedIntervalMs s
     \<and> (score s' = score s \<longrightarrow> speedIntervalMs s' = speedIntervalMs s)"
proof (induction cs arbitrary: s)
  case Nil
  then show ?case by simp
next
  case (Cons c cs)
  from Cons.prems(2) obtain s1 where e: "exec c s = Inr s1" and r: "run cs s1 = Inr s'"
    by (auto split: sum.splits)
  from Cons.prems(3) have nr: "\<forall>v. c \<noteq> Reset v" and nrs: "\<forall>v. Reset v \<notin> set cs" by auto
  from session_exec [OF Cons.prems(1) e nr] Cons.IH [OF sound_exec [OF Cons.prems(1) e] r nrs]
  show ?case by linarith
qed

lemma spawnFood_at:
  "length (empty_cells sn) = n \<Longrightarrow> 0 < n \<Longrightarrow> randomInt u n = i \<Longrightarrow> empty_cells sn ! i = p \<Longrightarrow>
   spawnFood u sn = p"
  by (auto simp: spawnFood_def Let_def)

lemma spawnFood_second:
  "spawnFood (draw_of 405 10) [Pos 4 9, Pos 4 10, Pos 5 10, Pos 6 10, Pos 7 10] = Pos 4 8"
proof (rule spawnFood_at [where n = 436 and i = 172])
  show "length (empty_cells [Pos 4 9, Pos 4 10, Pos 5 10, Pos 6 10, Pos 7 10]) = 436" by code_simp
  show "empty_cells [Pos 4 9, Pos 4 10, Pos 5 10, Pos 6 10, Pos 7 10] ! 172 = Pos 4 8" by code_simp
  show "randomInt (draw_of 405 10) 436 = 172" by (rule randomInt_eqI) (simp_all add: draw_of.rep_eq)
qed simp

lemma spawnFood_third:
  "spawnFood (draw_of 357 10) [Pos 4 8, Pos 4 9, Pos 4 10, Pos 5 10, Pos 6 10, Pos 7 10] = Pos 4 7"
proof (rule spawnFood_at [where n = 435 and i = 151])
  show "length (empty_cells [Pos 4 8, Pos 4 9, Pos 4 10, Pos 5 10, Pos 6 10, Pos 7 10]) = 435"
    by code_simp
  show "empty_cells [Pos 4 8, Pos 4 9, Pos 4 10, Pos 5 10, Pos 6 10, Pos 7 10] ! 151 = Pos 4 7"
    by code_simp
  show "randomInt (draw_of 357 10) 435 = 151"
    by (rule randomInt_eqI) (simp_all add: draw_of.rep_eq)
qed simp

lemma spawnFood_fourth:
  "spawnFood (draw_of 77 8) [Pos 4 7, Pos 4 8, Pos 4 9, Pos 4 10, Pos 5 10, Pos 6 10, Pos 7 10]
     = Pos 4 6"
proof (rule spawnFood_at [where n = 434 and i = 130])
  show "length (empty_cells [Pos 4 7, Pos 4 8, Pos 4 9, Pos 4 10, Pos 5 10, Pos 6 10, Pos 7 10])
          = 434"
    by code_simp
  show "empty_cells [Pos 4 7, Pos 4 8, Pos 4 9, Pos 4 10, Pos 5 10, Pos 6 10, Pos 7 10] ! 130
          = Pos 4 6"
    by code_simp
  show "randomInt (draw_of 77 8) 434 = 130"
    by (rule randomInt_eqI) (simp_all add: draw_of.rep_eq)
qed simp

lemma spawnFood_fifth:
  "spawnFood (draw_of 259 10)
     [Pos 4 6, Pos 4 7, Pos 4 8, Pos 4 9, Pos 4 10, Pos 5 10, Pos 6 10, Pos 7 10] = Pos 4 5"
proof (rule spawnFood_at [where n = 433 and i = 109])
  show "length (empty_cells
          [Pos 4 6, Pos 4 7, Pos 4 8, Pos 4 9, Pos 4 10, Pos 5 10, Pos 6 10, Pos 7 10]) = 433"
    by code_simp
  show "empty_cells
          [Pos 4 6, Pos 4 7, Pos 4 8, Pos 4 9, Pos 4 10, Pos 5 10, Pos 6 10, Pos 7 10] ! 109
          = Pos 4 5"
    by code_simp
  show "randomInt (draw_of 259 10) 433 = 109"
    by (rule randomInt_eqI) (simp_all add: draw_of.rep_eq)
qed simp

lemma four_eats:
  "run [SetDirection (Some Up), Tick (draw_of 405 10), Tick (draw_of 357 10), Tick (draw_of 77 8),
        Tick (draw_of 259 10)] start_game
   = Inr (playing 4 120 Up Up
       [Pos 4 6, Pos 4 7, Pos 4 8, Pos 4 9, Pos 4 10, Pos 5 10, Pos 6 10, Pos 7 10] (Pos 4 5))"
proof -
  have 1: "tick (draw_of 405 10) (setDirection (Some Up) start_game)
     = Inr (playing 1 120 Up Up [Pos 4 9, Pos 4 10, Pos 5 10, Pos 6 10, Pos 7 10] (Pos 4 8))"
    by (simp add: start_up_tick spawnFood_second)
  have 2: "tick (draw_of 357 10)
       (playing 1 120 Up Up [Pos 4 9, Pos 4 10, Pos 5 10, Pos 6 10, Pos 7 10] (Pos 4 8))
     = Inr (playing 2 120 Up Up [Pos 4 8, Pos 4 9, Pos 4 10, Pos 5 10, Pos 6 10, Pos 7 10] (Pos 4 7))"
    by (simp add: game_eval spawnFood_third)
  have 3: "tick (draw_of 77 8)
       (playing 2 120 Up Up [Pos 4 8, Pos 4 9, Pos 4 10, Pos 5 10, Pos 6 10, Pos 7 10] (Pos 4 7))
     = Inr (playing 3 120 Up Up [Pos 4 7, Pos 4 8, Pos 4 9, Pos 4 10, Pos 5 10, Pos 6 10, Pos 7 10]
         (Pos 4 6))"
    by (simp add: game_eval spawnFood_fourth)
  have 4: "tick (draw_of 259 10)
       (playing 3 120 Up Up [Pos 4 7, Pos 4 8, Pos 4 9, Pos 4 10, Pos 5 10, Pos 6 10, Pos 7 10]
         (Pos 4 6))
     = Inr (playing 4 120 Up Up
         [Pos 4 6, Pos 4 7, Pos 4 8, Pos 4 9, Pos 4 10, Pos 5 10, Pos 6 10, Pos 7 10] (Pos 4 5))"
    by (simp add: game_eval spawnFood_fifth)
  show ?thesis by (simp add: 1 2 3 4)
qed

lemma reachable_run: "reachable s \<Longrightarrow> run cs s = Inr s' \<Longrightarrow> reachable s'"
proof (induction cs arbitrary: s)
  case Nil
  then show ?case by simp
next
  case (Cons c cs)
  from Cons.prems(2) obtain s1 where e: "exec c s = Inr s1" and r: "run cs s1 = Inr s'"
    by (auto split: sum.splits)
  from Cons.IH [OF reachable.step [OF Cons.prems(1) e] r] show ?case .
qed

lemma fifth_eat:
  "tick u (playing 4 120 Up Up
       [Pos 4 6, Pos 4 7, Pos 4 8, Pos 4 9, Pos 4 10, Pos 5 10, Pos 6 10, Pos 7 10] (Pos 4 5))
   = Inr (playing 5 110 Up Up
       [Pos 4 5, Pos 4 6, Pos 4 7, Pos 4 8, Pos 4 9, Pos 4 10, Pos 5 10, Pos 6 10, Pos 7 10]
       (spawnFood u
         [Pos 4 5, Pos 4 6, Pos 4 7, Pos 4 8, Pos 4 9, Pos 4 10, Pos 5 10, Pos 6 10, Pos 7 10]))"
  by (simp add: game_eval)

text \<open>
  C5. A tick that eats the food adds one to the score. When the new score is a multiple of
  5 the speed interval becomes its 92 percent, rounded down to an integer, or 45 when that
  is less; otherwise the interval stays. So the interval is at least 45 after a speed-up,
  and in every reachable state it lies between 45 and 120. Over any calls without a
  \<open>reset\<close> (a session) the score does not go down and the interval does not go up, and
  the interval changes only when the score does.
\<close>

theorem speed_up:
  "(\<not> isPaused s \<and> \<not> isGameOver s \<and> snake s = h # t \<and> \<not> fatal s h
      \<and> head_after_commit s h = food s \<and> tick u s = Inr s' \<longrightarrow>
        score s' = score s + 1
        \<and> speedIntervalMs s' =
            (if score s' mod 5 = 0
             then max 45 \<lfloor>of_int (speedIntervalMs s) * (92 / 100 :: rat)\<rfloor>
             else speedIntervalMs s)
        \<and> (score s' mod 5 = 0 \<longrightarrow> 45 \<le> speedIntervalMs s'))
   \<and> (reachable s \<longrightarrow> 45 \<le> speedIntervalMs s \<and> speedIntervalMs s \<le> 120)
   \<and> (reachable s \<and> run cs s = Inr s2 \<and> (\<forall>v. Reset v \<notin> set cs) \<longrightarrow>
        score s \<le> score s2 \<and> speedIntervalMs s2 \<le> speedIntervalMs s
        \<and> (score s2 = score s \<longrightarrow> speedIntervalMs s2 = speedIntervalMs s))"
proof (intro conjI impI; (elim conjE)?)
  assume r: "\<not> isPaused s" "\<not> isGameOver s" and sn: "snake s = h # t" and nf: "\<not> fatal s h"
    and f: "head_after_commit s h = food s" and tk: "tick u s = Inr s'"
  from tk have s': "s' = s\<lparr>currentDirection := pendingDirection s,
                      snake := food s # snake s,
                      score := score s + 1,
                      speedIntervalMs :=
                        (if (score s + 1) mod 5 = 0 then max 45 (speedIntervalMs s * 92 div 100)
                         else speedIntervalMs s),
                      food := spawnFood u (food s # snake s)\<rparr>"
    unfolding tick_eat [OF r sn nf f] by simp
  show "score s' = score s + 1" by (simp add: s')
  show "speedIntervalMs s' =
            (if score s' mod 5 = 0
             then max 45 \<lfloor>of_int (speedIntervalMs s) * (92 / 100 :: rat)\<rfloor>
             else speedIntervalMs s)"
    unfolding floor_92 by (simp add: s')
  show "45 \<le> speedIntervalMs s'" if "score s' mod 5 = 0"
    using that by (simp add: s')
next
  assume "reachable s"
  from reachable_sound [OF this]
  show "45 \<le> speedIntervalMs s" "speedIntervalMs s \<le> 120" by (simp_all add: sound_def)
next
  assume "reachable s" "run cs s = Inr s2" "\<forall>v. Reset v \<notin> set cs"
  from session_run [OF reachable_sound [OF this(1)] this(2,3)]
  show "score s \<le> score s2" "speedIntervalMs s2 \<le> speedIntervalMs s"
    "score s2 = score s \<Longrightarrow> speedIntervalMs s2 = speedIntervalMs s" by simp_all
qed

theorem speed_up_witness:
  "reachable (playing 4 120 Up Up
      [Pos 4 6, Pos 4 7, Pos 4 8, Pos 4 9, Pos 4 10, Pos 5 10, Pos 6 10, Pos 7 10] (Pos 4 5))
   \<and> (\<exists>s'. tick draw_zero (playing 4 120 Up Up
          [Pos 4 6, Pos 4 7, Pos 4 8, Pos 4 9, Pos 4 10, Pos 5 10, Pos 6 10, Pos 7 10] (Pos 4 5))
         = Inr s'
       \<and> run [Tick draw_zero] (playing 4 120 Up Up
          [Pos 4 6, Pos 4 7, Pos 4 8, Pos 4 9, Pos 4 10, Pos 5 10, Pos 6 10, Pos 7 10] (Pos 4 5))
         = Inr s'
       \<and> score s' = 5 \<and> speedIntervalMs s' = 110 \<and> 45 \<le> speedIntervalMs s'
       \<and> speedIntervalMs s' \<le> 120)"
proof -
  let ?sn = "[Pos 4 6, Pos 4 7, Pos 4 8, Pos 4 9, Pos 4 10, Pos 5 10, Pos 6 10, Pos 7 10]"
  let ?s = "playing 4 120 Up Up ?sn (Pos 4 5)"
  let ?s' = "playing 5 110 Up Up (Pos 4 5 # ?sn) (spawnFood draw_zero (Pos 4 5 # ?sn))"
  have r: "reachable ?s"
    by (rule reachable_run [OF reachable.start four_eats])
  have t: "tick draw_zero ?s = Inr ?s'" by (rule fifth_eat)
  then have rn: "run [Tick draw_zero] ?s = Inr ?s'" by simp
  have h: "head_after_commit ?s (Pos 4 6) = food ?s"
    by (simp add: head_after_commit_def nextHead_def)
  have nf: "\<not> fatal ?s (Pos 4 6)"
    unfolding fatal_def h by (simp add: outside_grid_def GRID_COLUMNS_def GRID_ROWS_def)
  from speed_up [of ?s "Pos 4 6" "tl ?sn" draw_zero ?s' "[Tick draw_zero]" ?s'] r t rn h nf
  have "score ?s' = score ?s + 1" "speedIntervalMs ?s' \<le> speedIntervalMs ?s"
    "45 \<le> speedIntervalMs ?s'"
    by simp_all
  with r t rn show ?thesis by simp
qed

subsection \<open>The best score\<close>

lemma digit_cases: "d < 10 \<Longrightarrow> d \<in> {0, 1, 2, 3, 4, 5, 6, 7, 8, 9 :: nat}"
  by auto

lemma digit_value_digit: "d < 10 \<Longrightarrow> digit_value (digit d) = d"
  using digit_cases [of d] by (auto simp: digit_def digit_value_def)

lemma DecimalDigits_all: "list_all isDecimalDigit (DecimalDigits n)"
  unfolding list_all_iff isDecimalDigit_def using DecimalDigits_chars [of n] by blast

lemma digits_value_snoc: "digits_value r (ds @ [c]) = r * digits_value r ds + digit_value c"
  by (simp add: digits_value_def)

lemma digits_value_DecimalDigits: "digits_value 10 (DecimalDigits n) = n"
proof (induction n rule: DecimalDigits.induct)
  case (1 n)
  show ?case
  proof (cases "n < 10")
    case True
    then show ?thesis
      by (simp add: DecimalDigits.simps [of n] digits_value_def digit_value_digit)
  next
    case False
    with 1 show ?thesis
      by (simp add: DecimalDigits.simps [of n] digits_value_snoc digit_value_digit)
  qed
qed

lemma digit_not_space: "isDecimalDigit c \<Longrightarrow> \<not> isStrWhiteSpaceChar c"
  by (auto simp: isDecimalDigit_def isStrWhiteSpaceChar_def)

lemma trim_digits: "list_all isDecimalDigit ds \<Longrightarrow> trim ds = ds"
proof (cases "ds = []")
  case True
  then show ?thesis by (simp add: trim_def)
next
  case False
  assume a: "list_all isDecimalDigit ds"
  from False a have "\<not> isStrWhiteSpaceChar (hd ds)"
    by (cases ds) (auto dest: digit_not_space)
  with False have 1: "dropWhile isStrWhiteSpaceChar ds = ds"
    by (cases ds) auto
  from False a have "\<not> isStrWhiteSpaceChar (hd (rev ds))"
    by (auto simp: hd_rev list_all_iff dest: digit_not_space)
  with False have 2: "dropWhile isStrWhiteSpaceChar (rev ds) = rev ds"
    by (cases "rev ds") auto
  show ?thesis by (simp add: trim_def 1 2)
qed

lemma StrUnsignedDecimalLiteral_digits:
  assumes "list_all isDecimalDigit ds" and "ds \<noteq> []"
  shows "StrUnsignedDecimalLiteral ds = Finite (of_nat (digits_value 10 ds))"
proof -
  have "\<not> isDecimalDigit CHR ''I''" by (simp add: isDecimalDigit_def)
  with assms(1) have ni: "ds \<noteq> ''Infinity''" by auto
  from assms(1) have tw: "takeWhile isDecimalDigit ds = ds" "dropWhile isDecimalDigit ds = []"
    by (simp_all add: list_all_iff)
  show ?thesis
    using ni assms(2)
    by (simp add: StrUnsignedDecimalLiteral_def tw ExponentPart_def Let_def digits_value_def)
qed

lemma StrNumericLiteral_digits:
  assumes "list_all isDecimalDigit ds" and "ds \<noteq> []"
  shows "StrNumericLiteral ds = Finite (of_nat (digits_value 10 ds))"
proof -
  have "StrNumericLiteral ds = StrUnsignedDecimalLiteral ds"
  proof (cases ds)
    case Nil
    then show ?thesis by (simp add: StrNumericLiteral_def)
  next
    case c: (Cons c cs)
    show ?thesis
    proof (cases cs)
      case Nil
      with c show ?thesis by (simp add: StrNumericLiteral_def)
    next
      case (Cons d ds')
      from assms(1) c Cons have "isDecimalDigit c" "isDecimalDigit d" by simp_all
      moreover have "\<not> isDecimalDigit x" if "x \<in> set ''+-xXoObB''" for x
        using that by (auto simp: isDecimalDigit_def)
      ultimately have "c \<notin> set ''+-xXoObB''" "d \<notin> set ''+-xXoObB''" by blast+
      then have "c \<noteq> CHR ''+''" "c \<noteq> CHR ''-''" "d \<noteq> CHR ''x''" "d \<noteq> CHR ''X''"
        "d \<noteq> CHR ''o''" "d \<noteq> CHR ''O''" "d \<noteq> CHR ''b''" "d \<noteq> CHR ''B''"
        by simp_all
      with c Cons show ?thesis by (simp add: StrNumericLiteral_def)
    qed
  qed
  with assms show ?thesis by (simp add: StrUnsignedDecimalLiteral_digits)
qed

lemma StringToNumber_ToString: "0 \<le> i \<Longrightarrow> StringToNumber (ToString i) = Finite (of_int i)"
proof -
  assume "0 \<le> i"
  then have t: "ToString i = DecimalDigits (nat i)" by (simp add: ToString_def)
  have "StringToNumber (DecimalDigits (nat i)) = Finite (of_nat (nat i))"
    by (simp add: StringToNumber_def trim_digits DecimalDigits_all DecimalDigits_nonempty
        StrNumericLiteral_digits digits_value_DecimalDigits)
  with \<open>0 \<le> i\<close> show ?thesis by (simp add: t)
qed

lemma read_back:
  "0 \<le> i \<Longrightarrow> read_bestScore (st(HIGH_SCORE_KEY \<mapsto> ToString i)) = Finite (of_int i)"
  using DecimalDigits_nonempty [of "nat i"]
  by (simp add: read_bestScore_def StringToNumber_ToString) (simp add: ToString_def)

lemma js_gt_lt: "js_gt a b \<longleftrightarrow> js_lt b (Finite (of_int a))"
  by (cases b) simp_all

lemma js_lt_trans: "js_lt a b \<Longrightarrow> js_lt b c \<Longrightarrow> js_lt a c"
  by (cases a; cases b; cases c) simp_all

lemma bestScore_gameOver:
  "bestScore (gameOver s) = bestScore s \<or> js_lt (bestScore s) (bestScore (gameOver s))"
  by (simp add: gameOver_def Let_def js_gt_lt)

lemma bestScore_reset: "bestScore (reset u s) = bestScore s" "localStorage (reset u s) = localStorage s"
  by (simp_all add: reset_eq)

lemma bestScore_tick:
  assumes "tick u s = Inr s'"
  shows "bestScore s' = bestScore s \<or> js_lt (bestScore s) (bestScore s')"
  using assms
proof (cases rule: tick_cases)
  case (fatal h t)
  from bestScore_gameOver [of "s\<lparr>currentDirection := pendingDirection s\<rparr>"] fatal(5)
  show ?thesis by simp
qed simp_all

lemma bestScore_exec:
  "exec c s = Inr s' \<Longrightarrow> bestScore s' = bestScore s \<or> js_lt (bestScore s) (bestScore s')"
  by (cases c)
    (auto simp: bestScore_reset setDirection_def togglePause_def dest: bestScore_tick
      split: option.splits)

lemma bestScore_run:
  "run cs s = Inr s' \<Longrightarrow> bestScore s' = bestScore s \<or> js_lt (bestScore s) (bestScore s')"
proof (induction cs arbitrary: s)
  case Nil
  then show ?case by simp
next
  case (Cons c cs)
  from Cons.prems obtain s1 where e: "exec c s = Inr s1" and r: "run cs s1 = Inr s'"
    by (auto split: sum.splits)
  from bestScore_exec [OF e] Cons.IH [OF r] show ?case
    by (auto dest: js_lt_trans)
qed

text \<open>
  C6. \<open>gameOver\<close> makes the score the best score, and writes its decimal numeral
  under the key \<open>snake-high-score\<close>, exactly when the score is greater than the best
  score; otherwise it leaves both. What it writes, the constructor reads back as that
  score. \<open>reset\<close> touches neither. So over any run of calls, resets included, the best
  score is what it was or greater.
\<close>

theorem bestScore_never_decreases:
  "(js_gt (score s) (bestScore s) \<longrightarrow>
      bestScore (gameOver s) = Finite (of_int (score s))
      \<and> localStorage (gameOver s) = (localStorage s)(HIGH_SCORE_KEY \<mapsto> ToString (score s)))
   \<and> (\<not> js_gt (score s) (bestScore s) \<longrightarrow>
      bestScore (gameOver s) = bestScore s \<and> localStorage (gameOver s) = localStorage s)
   \<and> bestScore (reset u s) = bestScore s
   \<and> localStorage (reset u s) = localStorage s
   \<and> (run cs s = Inr s' \<longrightarrow>
        bestScore s' = bestScore s \<or> js_lt (bestScore s) (bestScore s'))
   \<and> (js_gt (score s) (bestScore s) \<and> 0 \<le> score s \<longrightarrow>
        read_bestScore (localStorage (gameOver s)) = bestScore (gameOver s))"
  using bestScore_run [of cs s s']
  by (simp add: gameOver_def Let_def bestScore_reset read_back)


lemma spawnFood_zero: "Pos 0 0 \<notin> set sn \<Longrightarrow> spawnFood draw_zero sn = Pos 0 0"
proof -
  assume n: "Pos 0 0 \<notin> set sn"
  have "spaces = Pos 0 0 # tl spaces" by code_simp
  then have "empty_cells sn = Pos 0 0 # filter (\<lambda>p. p \<notin> set sn) (tl spaces)"
    using n by (simp add: empty_cells_eq) (metis filter.simps(2))
  then show ?thesis
    by (simp add: spawnFood_def Let_def randomInt_def draw_zero.rep_eq roundToDouble_def)
qed

lemma ToString_1: "ToString 1 = ''1''"
  by (simp add: ToString_def DecimalDigits.simps digit_def)

lemma crash_run:
  "run [SetDirection (Some Up), Tick draw_zero, SetDirection (Some Right), Tick draw_zero,
        SetDirection (Some Down), Tick draw_zero, Reset draw_zero] start_game
   = Inr \<lparr>bestScore = Finite 1, score = 0, isPaused = False, isGameOver = False,
          speedIntervalMs = 120, speedMultiplier = 1,
          pendingDirection = Right, currentDirection = Right,
          snake = [Pos 4 10, Pos 5 10, Pos 6 10, Pos 7 10], food = Pos 0 0,
          localStorage = [HIGH_SCORE_KEY \<mapsto> ''1'']\<rparr>"
proof -
  have 1: "tick draw_zero (setDirection (Some Up) start_game)
     = Inr (playing 1 120 Up Up [Pos 4 9, Pos 4 10, Pos 5 10, Pos 6 10, Pos 7 10] (Pos 0 0))"
    by (simp add: start_up_tick spawnFood_zero)
  have 2: "tick draw_zero (setDirection (Some Right)
        (playing 1 120 Up Up [Pos 4 9, Pos 4 10, Pos 5 10, Pos 6 10, Pos 7 10] (Pos 0 0)))
     = Inr (playing 1 120 Right Right [Pos 5 9, Pos 4 9, Pos 4 10, Pos 5 10, Pos 6 10] (Pos 0 0))"
    by (simp add: game_eval)
  have 3: "tick draw_zero (setDirection (Some Down)
        (playing 1 120 Right Right [Pos 5 9, Pos 4 9, Pos 4 10, Pos 5 10, Pos 6 10] (Pos 0 0)))
     = Inr \<lparr>bestScore = Finite 1, score = 1, isPaused = False, isGameOver = True,
          speedIntervalMs = 120, speedMultiplier = 1,
          pendingDirection = Down, currentDirection = Down,
          snake = [Pos 5 9, Pos 4 9, Pos 4 10, Pos 5 10, Pos 6 10], food = Pos 0 0,
          localStorage = [HIGH_SCORE_KEY \<mapsto> ''1'']\<rparr>"
    by (simp add: game_eval ToString_1)
  show ?thesis
    unfolding run.simps exec.simps 1 sum.case 2 3
    by (simp add: reset_eq spawnFood_zero)
qed

theorem bestScore_never_decreases_witness:
  "js_gt (score (playing 1 120 Right Right [Pos 5 9, Pos 4 9, Pos 4 10, Pos 5 10, Pos 6 10] (Pos 0 0)))
      (bestScore (playing 1 120 Right Right [Pos 5 9, Pos 4 9, Pos 4 10, Pos 5 10, Pos 6 10] (Pos 0 0)))
   \<and> bestScore (gameOver (playing 1 120 Right Right [Pos 5 9, Pos 4 9, Pos 4 10, Pos 5 10, Pos 6 10] (Pos 0 0)))
       = Finite 1
   \<and> localStorage (gameOver (playing 1 120 Right Right [Pos 5 9, Pos 4 9, Pos 4 10, Pos 5 10, Pos 6 10] (Pos 0 0)))
        HIGH_SCORE_KEY = Some ''1''
   \<and> read_bestScore
        (localStorage (gameOver (playing 1 120 Right Right [Pos 5 9, Pos 4 9, Pos 4 10, Pos 5 10, Pos 6 10] (Pos 0 0))))
       = Finite 1
   \<and> \<not> js_gt (score start_game) (bestScore start_game)
   \<and> bestScore (gameOver start_game) = Finite 0
   \<and> localStorage (gameOver start_game) HIGH_SCORE_KEY = None
   \<and> (\<exists>s'. run [SetDirection (Some Up), Tick draw_zero, SetDirection (Some Right), Tick draw_zero,
               SetDirection (Some Down), Tick draw_zero, Reset draw_zero] start_game = Inr s'
         \<and> bestScore start_game = Finite 0 \<and> bestScore s' = Finite 1
         \<and> js_lt (bestScore start_game) (bestScore s'))"
proof -
  let ?s = "playing 1 120 Right Right [Pos 5 9, Pos 4 9, Pos 4 10, Pos 5 10, Pos 6 10] (Pos 0 0)"
  let ?cs = "[SetDirection (Some Up), Tick draw_zero, SetDirection (Some Right), Tick draw_zero,
               SetDirection (Some Down), Tick draw_zero, Reset draw_zero]"
  have g: "js_gt (score ?s) (bestScore ?s)" by simp
  have n: "\<not> js_gt (score start_game) (bestScore start_game)" by (simp add: start_game_eq)
  have b: "bestScore start_game = Finite 0" "localStorage start_game = Map.empty"
    by (simp_all add: start_game_eq)
  have e: "run ?cs start_game = Inr (projr (run ?cs start_game))"
    "bestScore (projr (run ?cs start_game)) = Finite 1"
    unfolding crash_run by simp_all
  from bestScore_never_decreases [of ?s draw_zero "[]" ?s]
    bestScore_never_decreases [of start_game draw_zero ?cs "projr (run ?cs start_game)"]
    g n b e
  show ?thesis by (auto simp: ToString_1)
qed

subsection \<open>No reversal\<close>

lemma tick_commits:
  assumes "tick u s = Inr s'" and "\<not> isPaused s" and "\<not> isGameOver s"
  shows "currentDirection s' = pendingDirection s"
  using assms by (cases rule: tick_cases) (simp_all add: gameOver_fields)

lemma never_reverses_sound:
  "sound s \<Longrightarrow> prev = None \<or> prev = Some (currentDirection s) \<Longrightarrow>
   never_reverses True prev cs s"
proof (induction cs arbitrary: s prev)
  case Nil
  show ?case by simp
next
  case (Cons c cs)
  show ?case
  proof (cases c)
    case (Reset v)
    from Cons.IH [OF sound_reset, of None v s] show ?thesis by (simp add: Reset)
  next
    case (SetDirection d)
    have "currentDirection (setDirection d s) = currentDirection s"
      by (simp add: setDirection_def split: option.split)
    with Cons.IH [OF sound_setDirection [OF Cons.prems(1)], of prev d] Cons.prems(2)
    show ?thesis by (simp add: SetDirection)
  next
    case TogglePause
    have "currentDirection (togglePause s) = currentDirection s"
      by (simp add: togglePause_def)
    with Cons.IH [OF sound_togglePause [OF Cons.prems(1)], of prev] Cons.prems(2)
    show ?thesis by (simp add: TogglePause)
  next
    case (Tick v)
    show ?thesis
    proof (cases "isPaused s \<or> isGameOver s")
      case True
      with Cons.IH [OF Cons.prems] show ?thesis by (simp add: Tick)
    next
      case run: False
      show ?thesis
      proof (cases "tick v s")
        case (Inl e)
        with run show ?thesis by (simp add: Tick)
      next
        case (Inr s')
        from run have r: "\<not> isPaused s" "\<not> isGameOver s" by simp_all
        have c: "currentDirection s' = pendingDirection s"
          using Inr r by (rule tick_commits)
        from Cons.prems(1) have "\<not> isOpposite (pendingDirection s) (currentDirection s)"
          by (simp add: sound_def)
        with Cons.prems(2) c
        have 1: "case prev of None \<Rightarrow> True | Some d \<Rightarrow> \<not> isOpposite (currentDirection s') d"
          by (auto split: option.split)
        have 2: "never_reverses True (Some (currentDirection s')) cs s'"
          by (rule Cons.IH [OF sound_tick [OF Cons.prems(1) Inr]]) simp
        from run 1 2 show ?thesis by (simp add: Tick Inr)
      qed
    qed
  qed
qed

text \<open>
  C2. \<open>setDirection\<close> changes nothing when its argument is \<open>null\<close> (or
  \<open>undefined\<close>) or is opposite to the current direction, and otherwise it stores the
  argument as the pending direction and changes nothing else; two directions are opposite
  exactly when each vector is the negation of the other. Hence in every reachable state the
  pending direction is not opposite to the current one, and the direction a tick commits
  is not opposite to the one that was current before it. So along every run of calls, from
  the constructor or from any reachable state, no tick commits the opposite of the
  direction that the tick before it committed, as long as no \<open>reset\<close> lies between the
  two ticks: \<open>reset\<close> sets both directions to \<open>Right\<close>, whatever was committed last.
\<close>

theorem setDirection_no_reverse:
  "setDirection None s = s
   \<and> (isOpposite d (currentDirection s) \<longrightarrow> setDirection (Some d) s = s)
   \<and> (\<not> isOpposite d (currentDirection s) \<longrightarrow>
        setDirection (Some d) s = s\<lparr>pendingDirection := d\<rparr>)
   \<and> (isOpposite d e \<longleftrightarrow> dir_x d = - dir_x e \<and> dir_y d = - dir_y e)
   \<and> currentDirection (setDirection dir s) = currentDirection s
   \<and> currentDirection (togglePause s) = currentDirection s
   \<and> (reachable s \<longrightarrow>
        \<not> isOpposite (pendingDirection s) (currentDirection s)
        \<and> (\<forall>u s'. tick u s = Inr s' \<longrightarrow> \<not> isOpposite (currentDirection s') (currentDirection s))
        \<and> never_reverses True (Some (currentDirection s)) cs s)
   \<and> never_reverses True None cs (constructor st v)"
proof -
  have opp: "isOpposite d e \<longleftrightarrow> dir_x d = - dir_x e \<and> dir_y d = - dir_y e"
    unfolding isOpposite_def by linarith
  have inv: "\<not> isOpposite (pendingDirection s) (currentDirection s)" if "reachable s"
    using reachable_sound [OF that] by (simp add: sound_def)
  have commit: "\<not> isOpposite (currentDirection s') (currentDirection s)"
    if "reachable s" "tick u s = Inr s'" for u s'
    using that(2) inv [OF that(1)]
    by (cases rule: tick_cases) (simp_all add: gameOver_fields not_isOpposite_same)
  have keep: "currentDirection (setDirection dir s) = currentDirection s"
    "currentDirection (togglePause s) = currentDirection s"
    by (simp_all add: setDirection_def togglePause_def split: option.split)
  have runs: "never_reverses True (Some (currentDirection s)) cs s" if "reachable s"
    by (rule never_reverses_sound [OF reachable_sound [OF that]]) simp
  have start: "never_reverses True None cs (constructor st v)"
    by (rule never_reverses_sound [OF reachable_sound [OF reachable.start]]) simp
  show ?thesis
    using opp inv commit keep runs start by (simp add: setDirection_def)
qed

theorem setDirection_no_reverse_witness:
  "isOpposite Left (currentDirection start_game)
   \<and> setDirection (Some Left) start_game = start_game
   \<and> setDirection (Some Up) start_game = start_game\<lparr>pendingDirection := Up\<rparr>
   \<and> reachable (setDirection (Some Up) start_game)
   \<and> currentDirection (setDirection (Some Up) start_game) = Right
   \<and> (\<exists>s'. tick draw_zero (setDirection (Some Up) start_game) = Inr s'
         \<and> currentDirection s' = Up
         \<and> \<not> isOpposite (currentDirection s') (currentDirection (setDirection (Some Up) start_game)))
   \<and> never_reverses True None
        [SetDirection (Some Up), Tick draw_zero, SetDirection (Some Left), Tick draw_zero,
         Reset draw_zero, Tick draw_zero] start_game"
proof -
  have l: "isOpposite Left (currentDirection start_game)"
    by (simp add: start_game_eq isOpposite_def)
  have u: "\<not> isOpposite Up (currentDirection start_game)"
    by (simp add: start_game_eq isOpposite_def)
  have r: "reachable (setDirection (Some Up) start_game)"
    by (rule reachable.step [OF reachable.start, where c = "SetDirection (Some Up)"]) simp
  have c: "currentDirection (setDirection (Some Up) start_game) = Right"
    by (simp add: setDirection_def start_game_eq isOpposite_def)
  have t: "tick draw_zero (setDirection (Some Up) start_game)
             = Inr (projr (tick draw_zero (setDirection (Some Up) start_game)))"
    "currentDirection (projr (tick draw_zero (setDirection (Some Up) start_game))) = Up"
    unfolding start_up_tick by simp_all
  note a = setDirection_no_reverse [of start_game Left Right None
      "[SetDirection (Some Up), Tick draw_zero, SetDirection (Some Left), Tick draw_zero,
        Reset draw_zero, Tick draw_zero]" Map.empty "draw_of 453 10"]
  note b = setDirection_no_reverse [of start_game Up Right None "[]" Map.empty "draw_of 453 10"]
  note d = setDirection_no_reverse [of "setDirection (Some Up) start_game" Up Right None "[]"
      Map.empty "draw_of 453 10"]
  from a l have 1: "setDirection (Some Left) start_game = start_game" by blast
  from b u have 2: "setDirection (Some Up) start_game = start_game\<lparr>pendingDirection := Up\<rparr>"
    by blast
  from d r t(1) have 3: "\<not> isOpposite
      (currentDirection (projr (tick draw_zero (setDirection (Some Up) start_game))))
      (currentDirection (setDirection (Some Up) start_game))" by blast
  from a have 4: "never_reverses True None
        [SetDirection (Some Up), Tick draw_zero, SetDirection (Some Left), Tick draw_zero,
         Reset draw_zero, Tick draw_zero] start_game" by blast
  from t 3 have 5: "\<exists>s'. tick draw_zero (setDirection (Some Up) start_game) = Inr s'
         \<and> currentDirection s' = Up
         \<and> \<not> isOpposite (currentDirection s') (currentDirection (setDirection (Some Up) start_game))"
    by blast
  from l 1 2 r c 5 4 show ?thesis by (intro conjI)
qed

text \<open>
  Across a \<open>reset\<close> the property fails: the run below commits \<open>Up\<close>, then \<open>Left\<close>,
  is reset, and its next tick commits \<open>Right\<close>, the opposite of \<open>Left\<close>.
\<close>

lemma reversal_run:
  "run [SetDirection (Some Up), Tick draw_zero, SetDirection (Some Left), Tick draw_zero]
     start_game
   = Inr (playing 1 120 Left Left [Pos 3 9, Pos 4 9, Pos 4 10, Pos 5 10, Pos 6 10] (Pos 0 0))"
proof -
  have 1: "tick draw_zero (setDirection (Some Up) start_game)
     = Inr (playing 1 120 Up Up [Pos 4 9, Pos 4 10, Pos 5 10, Pos 6 10, Pos 7 10] (Pos 0 0))"
    by (simp add: start_up_tick spawnFood_zero)
  have 2: "tick draw_zero (setDirection (Some Left)
        (playing 1 120 Up Up [Pos 4 9, Pos 4 10, Pos 5 10, Pos 6 10, Pos 7 10] (Pos 0 0)))
     = Inr (playing 1 120 Left Left [Pos 3 9, Pos 4 9, Pos 4 10, Pos 5 10, Pos 6 10] (Pos 0 0))"
    by (simp add: game_eval)
  show ?thesis
    unfolding run.simps exec.simps 1 sum.case 2 by simp
qed

theorem setDirection_no_reverse_counterexample:
  "run [SetDirection (Some Up), Tick draw_zero, SetDirection (Some Left), Tick draw_zero]
     start_game
   = Inr (playing 1 120 Left Left [Pos 3 9, Pos 4 9, Pos 4 10, Pos 5 10, Pos 6 10] (Pos 0 0))
   \<and> currentDirection
        (reset draw_zero
          (playing 1 120 Left Left [Pos 3 9, Pos 4 9, Pos 4 10, Pos 5 10, Pos 6 10] (Pos 0 0)))
       = Right
   \<and> currentDirection (projr (tick draw_zero (reset draw_zero
          (playing 1 120 Left Left [Pos 3 9, Pos 4 9, Pos 4 10, Pos 5 10, Pos 6 10] (Pos 0 0)))))
       = Right
   \<and> isOpposite Right Left
   \<and> \<not> never_reverses False None
         [SetDirection (Some Up), Tick draw_zero, SetDirection (Some Left), Tick draw_zero,
          Reset draw_zero, Tick draw_zero] start_game"
proof -
  let ?s = "playing 1 120 Left Left [Pos 3 9, Pos 4 9, Pos 4 10, Pos 5 10, Pos 6 10] (Pos 0 0)"
  have 1: "tick draw_zero (setDirection (Some Up) start_game)
     = Inr (playing 1 120 Up Up [Pos 4 9, Pos 4 10, Pos 5 10, Pos 6 10, Pos 7 10] (Pos 0 0))"
    by (simp add: start_up_tick spawnFood_zero)
  have 2: "tick draw_zero (setDirection (Some Left)
        (playing 1 120 Up Up [Pos 4 9, Pos 4 10, Pos 5 10, Pos 6 10, Pos 7 10] (Pos 0 0)))
     = Inr ?s"
    by (simp add: game_eval)
  have 3: "tick draw_zero (reset draw_zero ?s)
     = Inr (gameOver ((reset draw_zero ?s)\<lparr>currentDirection := Right\<rparr>))"
    by (rule tick_fatal [where h = "Pos 4 10" and t = "[Pos 5 10, Pos 6 10, Pos 7 10]",
          THEN trans])
       (simp_all add: reset_eq fatal_def head_after_commit_def nextHead_def)
  have r: "\<not> isPaused (reset draw_zero ?s)" "\<not> isGameOver (reset draw_zero ?s)"
    "currentDirection (reset draw_zero ?s) = Right"
    by (simp_all add: reset_eq)
  have u: "\<not> isPaused (setDirection (Some Up) start_game)"
    "\<not> isGameOver (setDirection (Some Up) start_game)"
    unfolding start_up_eq by simp_all
  have l: "\<not> isPaused (setDirection (Some Left)
        (playing 1 120 Up Up [Pos 4 9, Pos 4 10, Pos 5 10, Pos 6 10, Pos 7 10] (Pos 0 0)))"
    "\<not> isGameOver (setDirection (Some Left)
        (playing 1 120 Up Up [Pos 4 9, Pos 4 10, Pos 5 10, Pos 6 10, Pos 7 10] (Pos 0 0)))"
    by (simp_all add: setDirection_def isOpposite_def)
  have o: "isOpposite Right Left" by (simp add: isOpposite_def)
  have n: "\<not> never_reverses False None
         [SetDirection (Some Up), Tick draw_zero, SetDirection (Some Left), Tick draw_zero,
          Reset draw_zero, Tick draw_zero] start_game"
    unfolding never_reverses.simps using u l r o
    by (simp add: 1 2 3 gameOver_fields isOpposite_def)
  have c: "currentDirection (projr (tick draw_zero (reset draw_zero ?s))) = Right"
    unfolding 3 by (simp add: gameOver_fields)
  from reversal_run r(3) c o n show ?thesis by (intro conjI)
qed

subsection \<open>Where the food appears\<close>

lemma set_empty_cells: "set (empty_cells sn) = {p. \<not> outside_grid p \<and> p \<notin> set sn}"
  by (auto simp: empty_cells_eq set_spaces)


lemma spawnFood_nth:
  "empty_cells sn \<noteq> [] \<Longrightarrow>
   spawnFood u sn = empty_cells sn ! randomInt u (length (empty_cells sn))"
  by (simp add: spawnFood_def Let_def)


lemma randomInt_empty_cells:
  "empty_cells sn \<noteq> [] \<Longrightarrow> randomInt u (length (empty_cells sn)) < length (empty_cells sn)"
proof (rule randomInt_less)
  have "(2::nat) ^ 51 \<le> 2 ^ 53" by (intro power_increasing) simp_all
  with length_empty_cells show "length (empty_cells sn) \<le> 2 ^ 53" by (rule order_trans)
qed simp

lemma spawnFood_mem: "empty_cells sn \<noteq> [] \<Longrightarrow> spawnFood u sn \<in> set (empty_cells sn)"
  by (simp add: spawnFood_nth randomInt_empty_cells)









subsection \<open>The first tick after reset\<close>

text \<open>
  C1. The first tick of a game, where the snake is meant to move right and to grow when
  the food is ahead. \<open>reset\<close> pushes the
  cells (4,10), (5,10), (6,10), (7,10) in this order, so the head \<open>snake[0]\<close> is the
  leftmost cell and, moving \<open>Right\<close>, faces its own second segment. The food is never
  on that cell, and a tick of the state after \<open>reset\<close> ends the game with length 4 and
  score 0, the food where it was; with the food put on the cell ahead, the tick does the
  same.
\<close>

theorem reset_head_faces_body:
  "snake (reset u s) = [Pos 4 10, Pos 5 10, Pos 6 10, Pos 7 10]
   \<and> pendingDirection (reset u s) = Right
   \<and> head_after_commit (reset u s) (Pos 4 10) = Pos 5 10
   \<and> food (reset u s) \<noteq> Pos 5 10
   \<and> (\<exists>s'. tick v (reset u s) = Inr s' \<and> isGameOver s' \<and> length (snake s') = 4
         \<and> score s' = 0 \<and> food s' = food (reset u s))
   \<and> (\<exists>s'. tick v ((reset u s)\<lparr>food := Pos 5 10\<rparr>) = Inr s' \<and> isGameOver s'
         \<and> length (snake s') = 4 \<and> score s' = 0 \<and> food s' = Pos 5 10)"
proof -
  let ?sn = "[Pos 4 10, Pos 5 10, Pos 6 10, Pos 7 10]"
  have ne: "empty_cells ?sn \<noteq> []" using empty_initial_length by auto
  from spawnFood_mem [OF ne, of u] have "spawnFood u ?sn \<notin> set ?sn"
    unfolding set_empty_cells by blast
  then have f: "food (reset u s) \<noteq> Pos 5 10" by (auto simp: reset_eq)
  have t: "tick v (reset u s) = Inr (gameOver ((reset u s)\<lparr>currentDirection := Right\<rparr>))"
    by (rule tick_fatal [where h = "Pos 4 10" and t = "[Pos 5 10, Pos 6 10, Pos 7 10]",
          THEN trans])
       (simp_all add: reset_eq fatal_def head_after_commit_def nextHead_def)
  have t': "tick v ((reset u s)\<lparr>food := Pos 5 10\<rparr>)
              = Inr (gameOver ((reset u s)\<lparr>food := Pos 5 10, currentDirection := Right\<rparr>))"
    by (rule tick_fatal [where h = "Pos 4 10" and t = "[Pos 5 10, Pos 6 10, Pos 7 10]",
          THEN trans])
       (simp_all add: reset_eq fatal_def head_after_commit_def nextHead_def)
  show ?thesis
    unfolding t t' using f
    by (simp add: gameOver_fields) (simp add: reset_eq head_after_commit_def nextHead_def)
qed

subsection \<open>The best score at startup\<close>

text \<open>
  C7. What the constructor reads. With no stored value, or the empty string, the best
  score is 0, and a stored decimal numeral gives its value. A stored string that is not a
  numeric literal (\<open>abc\<close>, \<open>12px\<close>) gives \<open>NaN\<close>, not 0: the default \<open>|| 0\<close>
  applies to the string before the conversion, not to its result. Against a best score of
  \<open>NaN\<close> no score is greater, so \<open>gameOver\<close> never replaces it.
\<close>

theorem corrupt_bestScore_is_NaN:
  "bestScore (constructor [HIGH_SCORE_KEY \<mapsto> ''abc''] u) = NaN
   \<and> bestScore (constructor [HIGH_SCORE_KEY \<mapsto> ''12px''] u) = NaN
   \<and> bestScore (constructor Map.empty u) = Finite 0
   \<and> bestScore (constructor [HIGH_SCORE_KEY \<mapsto> ''''] u) = Finite 0
   \<and> bestScore (constructor [HIGH_SCORE_KEY \<mapsto> ''12''] u) = Finite 12
   \<and> bestScore (gameOver (s\<lparr>bestScore := NaN\<rparr>)) = NaN"
proof -
  have b: "bestScore (constructor st u) = read_bestScore st" for st
    by (simp add: constructor_def reset_eq)
  have 1: "StringToNumber ''abc'' = NaN"
    by (simp add: StringToNumber_def trim_def isStrWhiteSpaceChar_def StrNumericLiteral_def
        StrUnsignedDecimalLiteral_def isDecimalDigit_def)
  have 2: "StringToNumber ''12px'' = NaN"
    by (simp add: StringToNumber_def trim_def isStrWhiteSpaceChar_def StrNumericLiteral_def
        StrUnsignedDecimalLiteral_def isDecimalDigit_def ExponentPart_def)
  have 3: "StringToNumber ''12'' = Finite 12"
    by (simp add: StringToNumber_def trim_def isStrWhiteSpaceChar_def StrNumericLiteral_def
        StrUnsignedDecimalLiteral_def isDecimalDigit_def ExponentPart_def digits_value_def
        digit_value_def)
  show ?thesis
    by (simp add: b read_bestScore_def 1 2 3 gameOver_def)
qed

end
